theory Spec2Isabelle
  imports Main "HOL-Library.AList" "HOL-Library.Multiset"
begin

section \<open>The EZUI dynamic DOM builder (src/ezui-client.js, second script)\<close>

text \<open>
  The file holds two scripts; this theory is about the second one, the dynamic DOM
  builder (\<open>buildDOM\<close>, \<open>buildElement\<close>, \<open>handleMessage\<close> and the mutation operations).

  Modelling decisions, all of them visible in the definitions below:
  \<^item> Numbers of the JSON description (\<open>id\<close>, \<open>parentId\<close>, \<open>order\<close>) are integers
    (safe integers, which \<open>String\<close> prints in decimal); \<open>parentId: null\<close> is \<open>None\<close>.
    A JavaScript object (\<open>content\<close>, \<open>styles\<close>, \<open>attributes\<close>) is the list of its own
    entries in \<open>Object.entries\<close> order; a language code is taken not to be the name of a
    property that every object inherits.
  \<^item> The document is the content of the \<open>#root\<close> container, which the page is taken
    to have: \<open>rendered\<close> is the list of its child elements. An element carries its
    attribute list (the \<open>dataset\<close> entries are the \<open>data-*\<close> attributes, as in the DOM),
    its inline style, its text, whether it has the class \<open>ezui-selected\<close>, and its child
    elements. Inline style and class are kept in fields of their own, not in the
    attribute list; no statement below compares the \<open>style\<close> or \<open>class\<close> attribute.
    Tag and attribute names are lower-cased as an HTML document does.
  \<^item> What the browser accepts is a parameter, \<open>browser\<close>: \<open>createElement\<close> and
    \<open>setAttribute\<close> raise \<open>InvalidCharacterError\<close> on a name they do not accept, and an
    assignment to \<open>el.style[key]\<close> that the CSS parser does not accept changes nothing.
  \<^item> \<open>buildElement\<close> and \<open>findChildren\<close> recurse without a bound. They take the
    depth of recursion the stack allows as an argument and raise (\<open>RangeError\<close>) when it
    is used up. For these two functions raising is the value \<open>None\<close>: an element under
    construction is not attached anywhere, so nothing of it remains.
  \<^item> An operation on the page ends in an \<open>outcome\<close>: it has returned, or it has
    raised; either way the state it leaves behind is part of the outcome, since what was
    assigned before an exception stays assigned.
  \<^item> \<open>Array.prototype.sort\<close> is stable (ECMAScript 2019) and the comparator is a
    difference of integers, so the result is the stable sort by the key.
  \<^item> \<open>generation\<close> counts the executions of \<open>root.innerHTML = ''\<close>. Every element
    instance in the container was created after the last one, so a step that changes
    \<open>generation\<close> has discarded all earlier instances.
  \<^item> \<open>outbox\<close> is the list of the \<open>ezui-ready\<close> messages posted to the host,
    oldest first.
  \<^item> Scrolling (\<open>scrollIntoView\<close>), the injected style sheet, the console and the
    click handler (which posts \<open>element-selected\<close> and changes the selection only) are
    left out.
\<close>

subsection \<open>Component records\<close>

text \<open>The field \<open>cid\<close> is the record's \<open>id\<close>.\<close>

record component =
  cid :: int
  parentId :: "int option"
  order :: "int option"
  elementType :: "string option"
  content :: "(string \<times> string) list"
  styles :: "(string \<times> string) list"
  attributes :: "(string \<times> string) list"
  ezuiCms :: "string option"

text \<open>\<open>(a.order || 0)\<close>: a missing order counts as 0.\<close>

definition orderKey :: "component \<Rightarrow> int" where
  "orderKey c = (case order c of None \<Rightarrow> 0 | Some k \<Rightarrow> k)"

text \<open>
  \<open>componentsData.components.filter(c => c.parentId === component.id)
     .sort((a, b) => (a.order || 0) - (b.order || 0))\<close>
\<close>

definition children :: "component list \<Rightarrow> component \<Rightarrow> component list" where
  "children comps c = sort_key orderKey (filter (\<lambda>x. parentId x = Some (cid c)) comps)"

text \<open>The parent/child relation on ids: \<open>(p, i)\<close> when a record with id \<open>i\<close> names \<open>p\<close> as its parent.\<close>

definition parentRel :: "component list \<Rightarrow> (int \<times> int) set" where
  "parentRel comps = {(p, i). \<exists>c \<in> set comps. parentId c = Some p \<and> cid c = i}"

subsection \<open>Strings of numbers and names\<close>

definition digitChar :: "nat \<Rightarrow> char" where
  "digitChar d = ''0123456789'' ! d"

function natString :: "nat \<Rightarrow> string" where
  "natString n = (if n < 10 then [digitChar n] else natString (n div 10) @ [digitChar (n mod 10)])"
  by pat_completeness auto
termination
  by (relation "measure (\<lambda>n. n)") auto

declare natString.simps [simp del]

text \<open>\<open>String(id)\<close> of an integer: its decimal digits, with a minus sign when negative.\<close>

definition idString :: "int \<Rightarrow> string" where
  "idString i = (if i < 0 then CHR ''-'' # natString (nat (- i)) else natString (nat i))"

definition lowerChar :: "char \<Rightarrow> char" where
  "lowerChar c =
     (case map_of (zip ''ABCDEFGHIJKLMNOPQRSTUVWXYZ'' ''abcdefghijklmnopqrstuvwxyz'') c of
        None \<Rightarrow> c | Some d \<Rightarrow> d)"

definition lowerName :: "string \<Rightarrow> string" where
  "lowerName s = map lowerChar s"

subsection \<open>Elements\<close>

datatype element = Element (tagName: string) (attrs: "(string \<times> string) list")
  (style: "(string \<times> string) list") (textContent: "string option") (selected: bool)
  (childNodes: "element list")

text \<open>
  What the browser accepts: the names \<open>createElement\<close> and \<open>setAttribute\<close> do not
  raise \<open>InvalidCharacterError\<close> on, and the pairs of a style property and a value that
  the CSS parser takes.
\<close>

record browser =
  validElementName :: "string \<Rightarrow> bool"
  validAttributeName :: "string \<Rightarrow> bool"
  validStyle :: "string \<Rightarrow> string \<Rightarrow> bool"

text \<open>\<open>document.createElement(t)\<close>; \<open>None\<close>: it raises.\<close>

definition createElement :: "browser \<Rightarrow> string \<Rightarrow> element option" where
  "createElement env t =
     (if validElementName env t then Some (Element (lowerName t) [] [] None False []) else None)"

text \<open>\<open>el.setAttribute(k, v)\<close>; \<open>None\<close>: it raises.\<close>

fun setAttribute :: "browser \<Rightarrow> string \<Rightarrow> string \<Rightarrow> element \<Rightarrow> element option" where
  "setAttribute env k v (Element t a s x c ks) =
     (if validAttributeName env k then Some (Element t (AList.update (lowerName k) v a) s x c ks)
      else None)"

text \<open>
  An assignment to an entry of \<open>el.dataset\<close>, which writes the attribute \<open>data-...\<close>
  of the entry; the name of the attribute is given. It does not raise for the two
  entries the script writes.
\<close>

fun setData :: "string \<Rightarrow> string \<Rightarrow> element \<Rightarrow> element" where
  "setData k v (Element t a s x c ks) = Element t (AList.update k v a) s x c ks"

text \<open>\<open>el.style[k] = v\<close>: nothing changes when the browser does not take the pair.\<close>

fun setStyle :: "browser \<Rightarrow> string \<Rightarrow> string \<Rightarrow> element \<Rightarrow> element" where
  "setStyle env k v (Element t a s x c ks) =
     (if validStyle env k v then Element t a (AList.update k v s) x c ks
      else Element t a s x c ks)"

text \<open>Assigning \<open>textContent\<close> replaces all children of the element by the text.\<close>

fun setTextContent :: "string \<Rightarrow> element \<Rightarrow> element" where
  "setTextContent txt (Element t a s x c ks) = Element t a s (Some txt) c []"

fun appendChild :: "element \<Rightarrow> element \<Rightarrow> element" where
  "appendChild k (Element t a s x c ks) = Element t a s x c (ks @ [k])"

fun setSelected :: "bool \<Rightarrow> element \<Rightarrow> element" where
  "setSelected b (Element t a s x c ks) = Element t a s x b ks"

definition dataId :: "element \<Rightarrow> string option" where
  "dataId e = map_of (attrs e) ''data-id''"

text \<open>All elements of a tree, in document order.\<close>

fun nodes :: "element \<Rightarrow> element list" where
  "nodes (Element t a s x c ks) = Element t a s x c ks # concat (map nodes ks)"

subsection \<open>buildElement and buildDOM\<close>

text \<open>The tag \<open>buildElement\<close> asks for: \<open>component.elementType || 'div'\<close>.\<close>

definition tagOf :: "component \<Rightarrow> string" where
  "tagOf c = (case elementType c of None \<Rightarrow> ''div'' | Some t \<Rightarrow> if t = [] then ''div'' else t)"

text \<open>
  The first half of \<open>buildElement\<close>: \<open>createElement\<close>, \<open>el.dataset.id\<close>,
  \<open>el.dataset.ezuiCms\<close> (a missing value is stored as the string \<open>undefined\<close>), then
  the styles and the attributes, entry by entry. \<open>None\<close>: \<open>createElement\<close> or a
  \<open>setAttribute\<close> raises.
\<close>

definition newElement :: "browser \<Rightarrow> component \<Rightarrow> element option" where
  "newElement env c =
     (case createElement env (tagOf c) of
        None \<Rightarrow> None
      | Some el0 \<Rightarrow>
          (let el1 = setData ''data-id'' (idString (cid c)) el0;
               el2 = setData ''data-ezui-cms''
                       (case ezuiCms c of None \<Rightarrow> ''undefined'' | Some s \<Rightarrow> s) el1;
               el3 = fold (\<lambda>(k, v). setStyle env k v) (styles c) el2
           in fold (\<lambda>(k, v) r. case r of None \<Rightarrow> None | Some el \<Rightarrow> setAttribute env k v el)
                (attributes c) (Some el3)))"

text \<open>\<open>component.content && component.content[currentLang]\<close>: the text, when it is a non-empty string.\<close>

definition contentText :: "string \<Rightarrow> component \<Rightarrow> string option" where
  "contentText lang c =
     (case map_of (content c) lang of None \<Rightarrow> None
      | Some t \<Rightarrow> if t = [] then None else Some t)"

text \<open>
  \<open>buildElement\<close> with the stack depth left. \<open>None\<close>: it raises, because the depth
  is used up, or because \<open>createElement\<close> or \<open>setAttribute\<close> raises for the record
  or for a record below it.
\<close>

fun buildElement :: "browser \<Rightarrow> nat \<Rightarrow> component list \<Rightarrow> string \<Rightarrow> component \<Rightarrow> element option" where
  "buildElement env 0 comps lang c = None"
| "buildElement env (Suc n) comps lang c =
     (case newElement env c of
        None \<Rightarrow> None
      | Some el \<Rightarrow>
          (let chs = children comps c
           in if chs = [] then
                (case contentText lang c of None \<Rightarrow> Some el | Some t \<Rightarrow> Some (setTextContent t el))
              else
                map_option (\<lambda>ks. fold appendChild ks el)
                  (those (map (buildElement env n comps lang) chs))))"

record state =
  components :: "component list"
  currentLang :: string
  rendered :: "element list"
  generation :: nat
  outbox :: "(nat \<times> string) list"

text \<open>How an operation ends, and the state it leaves.\<close>

datatype outcome = Returned (final: state) | Raised (final: state)

text \<open>
  \<open>buildDOM\<close>: clear the container, find the first record with \<open>parentId === null\<close>,
  build it and append it. Without such a record the container stays empty. When
  \<open>buildElement\<close> raises, the container has been cleared and nothing is appended.
\<close>

definition buildDOM :: "browser \<Rightarrow> nat \<Rightarrow> state \<Rightarrow> outcome" where
  "buildDOM env n s =
     (let s1 = s\<lparr>rendered := [], generation := Suc (generation s)\<rparr>
      in case find (\<lambda>c. parentId c = None) (components s) of
           None \<Rightarrow> Returned s1
         | Some rootComponent \<Rightarrow>
             (case buildElement env n (components s) (currentLang s) rootComponent of
                None \<Rightarrow> Raised s1
              | Some rootElement \<Rightarrow> Returned (s1\<lparr>rendered := [rootElement]\<rparr>)))"

subsection \<open>Start-up\<close>

text \<open>The document \<open>data.json\<close>: its \<open>language\<close> and its \<open>components\<close> (here \<open>records\<close>).\<close>

record description =
  language :: "string option"
  records :: "component list"

text \<open>
  \<open>enableEditMode\<close> posts the message \<open>ezui-ready\<close>; the pair is its
  \<open>elementsCount\<close> and \<open>language\<close>.
\<close>

definition enableEditMode :: "state \<Rightarrow> state" where
  "enableEditMode s = s\<lparr>outbox := outbox s @ [(length (components s), currentLang s)]\<rparr>"

text \<open>
  The number of addressable elements of the page, \<open>document.querySelectorAll('[data-id]').length\<close>.
\<close>

definition addressable :: "state \<Rightarrow> nat" where
  "addressable s = length (filter (\<lambda>e. dataId e \<noteq> None) (concat (map nodes (rendered s))))"

text \<open>
  How \<open>init\<close> ends: the load failed; the first build raised, so that \<open>init\<close> never
  reached \<open>enableEditMode\<close>; or the page is up.
\<close>

datatype boot = LoadFailed | BuildFailed state | Booted state

text \<open>
  \<open>init\<close>, given what the fetch of \<open>data.json\<close> produced (\<open>None\<close>: it failed, and
  \<open>init\<close> returns before any build) and whether the page is inside an iframe.
\<close>

definition init :: "browser \<Rightarrow> nat \<Rightarrow> bool \<Rightarrow> description option \<Rightarrow> boot" where
  "init env n isInIframe loaded =
     (case loaded of
        None \<Rightarrow> LoadFailed
      | Some d \<Rightarrow>
          (let s0 = \<lparr>components = records d,
                     currentLang = (case language d of None \<Rightarrow> ''en''
                                    | Some l \<Rightarrow> if l = [] then ''en'' else l),
                     rendered = [], generation = 0, outbox = []\<rparr>
           in case buildDOM env n s0 of
                Raised s1 \<Rightarrow> BuildFailed s1
              | Returned s1 \<Rightarrow> Booted (if isInIframe then enableEditMode s1 else s1)))"

subsection \<open>Operations on the live elements\<close>

text \<open>
  \<open>document.querySelector\<close> followed by a change of the element found: the first
  element in document order that satisfies \<open>p\<close> is replaced by \<open>f\<close> of it. \<open>None\<close>
  when no element satisfies \<open>p\<close>.
\<close>

fun updEl :: "(element \<Rightarrow> bool) \<Rightarrow> (element \<Rightarrow> element) \<Rightarrow> element \<Rightarrow> element option"
and updEls :: "(element \<Rightarrow> bool) \<Rightarrow> (element \<Rightarrow> element) \<Rightarrow> element list \<Rightarrow> element list option" where
  "updEl p f (Element t a s x c ks) =
     (if p (Element t a s x c ks) then Some (f (Element t a s x c ks))
      else map_option (Element t a s x c) (updEls p f ks))"
| "updEls p f [] = None"
| "updEls p f (e # es) =
     (case updEl p f e of
        Some e' \<Rightarrow> Some (e' # es)
      | None \<Rightarrow> map_option ((#) e) (updEls p f es))"

definition modifyFirst :: "(element \<Rightarrow> bool) \<Rightarrow> (element \<Rightarrow> element) \<Rightarrow> element list \<Rightarrow> element list" where
  "modifyFirst p f es = (case updEls p f es of None \<Rightarrow> es | Some es' \<Rightarrow> es')"

text \<open>The selector \<open>[data-id="${id}"]\<close>.\<close>

definition hasId :: "int \<Rightarrow> element \<Rightarrow> bool" where
  "hasId i e = (dataId e = Some (idString i))"

text \<open>\<open>el.querySelector('[data-id]')\<close>: some descendant of the element has a \<open>data-id\<close>.\<close>

definition hasChildDataId :: "element \<Rightarrow> bool" where
  "hasChildDataId e = list_ex (\<lambda>k. list_ex (\<lambda>d. dataId d \<noteq> None) (nodes k)) (childNodes e)"

definition updateContent :: "int \<Rightarrow> string \<Rightarrow> state \<Rightarrow> state" where
  "updateContent i txt s =
     s\<lparr>rendered := modifyFirst (hasId i)
          (\<lambda>el. if hasChildDataId el then el else setTextContent txt el) (rendered s)\<rparr>"

definition updateStyle :: "browser \<Rightarrow> int \<Rightarrow> string \<Rightarrow> string \<Rightarrow> state \<Rightarrow> state" where
  "updateStyle env i styleKey v s =
     s\<lparr>rendered := modifyFirst (hasId i) (setStyle env styleKey v) (rendered s)\<rparr>"

fun mapNodes :: "(element \<Rightarrow> element) \<Rightarrow> element \<Rightarrow> element" where
  "mapNodes f (Element t a s x c ks) = f (Element t a s x c (map (mapNodes f) ks))"

definition clearHighlight :: "state \<Rightarrow> state" where
  "clearHighlight s = s\<lparr>rendered := map (mapNodes (setSelected False)) (rendered s)\<rparr>"

definition highlightElement :: "int \<Rightarrow> state \<Rightarrow> state" where
  "highlightElement i s =
     (let s1 = clearHighlight s
      in s1\<lparr>rendered := modifyFirst (hasId i) (setSelected True) (rendered s1)\<rparr>)"

subsection \<open>Operations on the store\<close>

text \<open>\<open>comp.order = newOrder\<close> on the first record with the id.\<close>

fun setOrder :: "int \<Rightarrow> int \<Rightarrow> component list \<Rightarrow> component list" where
  "setOrder i newOrder [] = []"
| "setOrder i newOrder (c # cs) =
     (if cid c = i then c\<lparr>order := Some newOrder\<rparr> # cs else c # setOrder i newOrder cs)"

definition reorderComponent :: "browser \<Rightarrow> nat \<Rightarrow> int \<Rightarrow> int \<Rightarrow> state \<Rightarrow> outcome" where
  "reorderComponent env n i newOrder s =
     (case find (\<lambda>c. cid c = i) (components s) of
        None \<Rightarrow> Returned s
      | Some found \<Rightarrow> buildDOM env n (s\<lparr>components := setOrder i newOrder (components s)\<rparr>))"

definition addComponent :: "browser \<Rightarrow> nat \<Rightarrow> component \<Rightarrow> state \<Rightarrow> outcome" where
  "addComponent env n newComp s = buildDOM env n (s\<lparr>components := components s @ [newComp]\<rparr>)"

text \<open>
  \<open>findChildren\<close> of \<open>deleteComponent\<close>, with the stack depth left: for each record
  whose parent is \<open>p\<close>, in list order, push its id and recurse into it. The list
  \<open>idsToRemove\<close> is passed along. \<open>None\<close>: the depth is used up and it raises.
\<close>

fun findChildren :: "nat \<Rightarrow> component list \<Rightarrow> int \<Rightarrow> int list \<Rightarrow> int list option" where
  "findChildren 0 comps p idsToRemove = None"
| "findChildren (Suc n) comps p idsToRemove =
     fold (\<lambda>c acc. case acc of None \<Rightarrow> None
                    | Some ids \<Rightarrow> findChildren n comps (cid c) (ids @ [cid c]))
       (filter (\<lambda>c. parentId c = Some p) comps) (Some idsToRemove)"

text \<open>
  \<open>deleteComponent\<close>: when \<open>findChildren\<close> raises, nothing has been assigned yet;
  otherwise the store is assigned before \<open>buildDOM\<close> runs.
\<close>

definition deleteComponent :: "browser \<Rightarrow> nat \<Rightarrow> int \<Rightarrow> state \<Rightarrow> outcome" where
  "deleteComponent env n i s =
     (case findChildren n (components s) i [i] of
        None \<Rightarrow> Raised s
      | Some idsToRemove \<Rightarrow>
          buildDOM env n
            (s\<lparr>components := filter (\<lambda>c. cid c \<notin> set idsToRemove) (components s)\<rparr>))"

subsection \<open>The message handler\<close>

datatype command =
    UpdateContent int string
  | UpdateStyle int string string
  | Highlight int
  | ClearHighlight
  | Reorder int int
  | AddComponent component
  | DeleteComponent int
  | Rebuild "component list option"
  | Unknown string

text \<open>An inbound message: its \<open>source\<close> field (\<open>None\<close> when it has none) and its type with its data.\<close>

record message =
  source :: "string option"
  command :: command

definition handleMessage :: "browser \<Rightarrow> nat \<Rightarrow> message \<Rightarrow> state \<Rightarrow> outcome" where
  "handleMessage env n e s =
     (if source e \<noteq> Some ''visual-editor'' then Returned s
      else case command e of
             UpdateContent i txt \<Rightarrow> Returned (updateContent i txt s)
           | UpdateStyle i k v \<Rightarrow> Returned (updateStyle env i k v s)
           | Highlight i \<Rightarrow> Returned (highlightElement i s)
           | ClearHighlight \<Rightarrow> Returned (clearHighlight s)
           | Reorder i newOrder \<Rightarrow> reorderComponent env n i newOrder s
           | AddComponent newComp \<Rightarrow> addComponent env n newComp s
           | DeleteComponent i \<Rightarrow> deleteComponent env n i s
           | Rebuild payload \<Rightarrow>
               buildDOM env n (case payload of None \<Rightarrow> s | Some cs \<Rightarrow> s\<lparr>components := cs\<rparr>)
           | Unknown t \<Rightarrow> Returned s)"

text \<open>A message of the host editor carrying a command.\<close>

definition fromEditor :: "command \<Rightarrow> message" where
  "fromEditor cmd = \<lparr>source = Some ''visual-editor'', command = cmd\<rparr>"


text \<open>
  The states the page can be in once \<open>init\<close> has returned, for a description loaded:
  the state after \<open>init\<close>, and,
  inside an iframe (where \<open>enableEditMode\<close> has registered \<open>handleMessage\<close>), the state
  after each message handled, whether the handler returned or raised.
\<close>

inductive reachable :: "browser \<Rightarrow> bool \<Rightarrow> description \<Rightarrow> state \<Rightarrow> bool" where
  start: "init env n isInIframe (Some d) = Booted s \<Longrightarrow> reachable env isInIframe d s"
| step: "reachable env True d s \<Longrightarrow> reachable env True d (final (handleMessage env n e s))"

subsection \<open>Auxiliary notions\<close>

text \<open>No cycle below an id: nothing reachable from i lies on a cycle.\<close>

definition cycleFree :: "component list \<Rightarrow> int \<Rightarrow> bool" where
  "cycleFree comps i = (\<forall>y. (i, y) \<in> (parentRel comps)\<^sup>* \<longrightarrow> (y, y) \<notin> (parentRel comps)\<^sup>+)"

text \<open>
  The browser accepts the tag and the attribute names of a record: \<open>createElement\<close>
  and \<open>setAttribute\<close> do not raise for it.
\<close>

definition namesAccepted :: "browser \<Rightarrow> component \<Rightarrow> bool" where
  "namesAccepted env c \<longleftrightarrow>
     validElementName env (tagOf c) \<and> (\<forall>k \<in> fst ` set (attributes c). validAttributeName env k)"

text \<open>The element \<open>newElement\<close> returns for a record, when it returns.\<close>

definition stamped :: "browser \<Rightarrow> component \<Rightarrow> element" where
  "stamped env c =
     Element (lowerName (tagOf c))
       (fold (\<lambda>(k, v). AList.update (lowerName k) v) (attributes c)
          [(''data-id'', idString (cid c)),
           (''data-ezui-cms'', case ezuiCms c of None \<Rightarrow> ''undefined'' | Some s \<Rightarrow> s)])
       (fold (\<lambda>(k, v) st. if validStyle env k v then AList.update k v st else st) (styles c) [])
       None False []"

text \<open>The operation has returned.\<close>

definition returned :: "outcome \<Rightarrow> bool" where
  "returned out = (case out of Returned s \<Rightarrow> True | Raised s \<Rightarrow> False)"

text \<open>
  The records for which \<open>buildElement\<close> creates an element when it returns, in the order
  of creation (the same recursion, keeping the record instead of the element).
\<close>

fun buildCalls :: "nat \<Rightarrow> component list \<Rightarrow> component \<Rightarrow> component list option" where
  "buildCalls 0 comps c = None"
| "buildCalls (Suc n) comps c =
     map_option (\<lambda>rss. c # concat rss) (those (map (buildCalls n comps) (children comps c)))"

subsection \<open>Examples\<close>

text \<open>
  A browser for the examples. It accepts the names that are an ASCII letter followed by
  ASCII letters, digits and hyphens, and the style assignments \<open>color: red\<close> and
  \<open>color: blue\<close>, as every browser does; it accepts nothing else. On the names and
  styles that occur in the examples (among them the empty name and \<open>1 <x>\<close>, which no
  browser accepts) it decides as the browsers do.
\<close>

definition plainName :: "string \<Rightarrow> bool" where
  "plainName t =
     (case t of [] \<Rightarrow> False
      | c # cs \<Rightarrow> c \<in> set ''abcdefghijklmnopqrstuvwxyzABCDEFGHIJKLMNOPQRSTUVWXYZ'' \<and>
          list_all (\<lambda>d. d \<in> set ''abcdefghijklmnopqrstuvwxyzABCDEFGHIJKLMNOPQRSTUVWXYZ0123456789-'') cs)"

definition exampleBrowser :: browser where
  "exampleBrowser =
     \<lparr>validElementName = plainName, validAttributeName = plainName,
      validStyle = (\<lambda>k v. k = ''color'' \<and> v \<in> set [''red'', ''blue''])\<rparr>"

text \<open>A record with nothing but its id, parent and order.\<close>

definition plain :: "int \<Rightarrow> int option \<Rightarrow> int option \<Rightarrow> component" where
  "plain i p k = \<lparr>cid = i, parentId = p, order = k, elementType = None, content = [],
                 styles = [], attributes = [], ezuiCms = None\<rparr>"

text \<open>A root with its own content and one child.\<close>

definition textStore :: "component list" where
  "textStore = [(plain 1 None None)\<lparr>content := [(''en'', ''Title'')]\<rparr>,
                (plain 2 (Some 1) None)\<lparr>content := [(''en'', ''Hello'')]\<rparr>]"


text \<open>The tree root(1) \<rightarrow> A(2) \<rightarrow> B(3) \<rightarrow> C(4) and root \<rightarrow> D(5).\<close>

definition treeStore :: "component list" where
  "treeStore = [plain 1 None None, plain 2 (Some 1) None, plain 3 (Some 2) None,
                plain 4 (Some 3) None, plain 5 (Some 1) None]"

text \<open>A page state holding a store, before any build.\<close>

definition page :: "component list \<Rightarrow> state" where
  "page comps = \<lparr>components = comps, currentLang = ''en'', rendered = [], generation = 0, outbox = []\<rparr>"



text \<open>A root and a record whose parent is not in the store; a store without a root.\<close>

definition orphanStore :: "component list" where
  "orphanStore = [plain 1 None None, plain 7 (Some 99) None]"

definition rootlessStore :: "component list" where
  "rootlessStore = [plain 7 (Some 99) None]"

text \<open>
  The page of the store with texts, inside an iframe, after \<open>init\<close> and one
  \<open>update-style\<close> message for the element 2.
\<close>

definition textDescription :: description where
  "textDescription = \<lparr>language = None, records = textStore\<rparr>"

definition startedPage :: state where
  "startedPage = (case init exampleBrowser 2 True (Some textDescription) of
                    Booted s \<Rightarrow> updateStyle exampleBrowser 2 ''color'' ''red'' s | _ \<Rightarrow> page [])"





text \<open>The description with a record whose parent is missing.\<close>

definition orphanDescription :: description where
  "orphanDescription = \<lparr>language = None, records = orphanStore\<rparr>"

text \<open>
  The state in which \<open>init\<close> leaves a page that has loaded this description inside an
  iframe, and the same for the store without a root.
\<close>

definition orphanPage :: state where
  "orphanPage =
     \<lparr>components = orphanStore, currentLang = ''en'',
      rendered = [Element ''div'' [(''data-id'', ''1''), (''data-ezui-cms'', ''undefined'')] [] None
                    False []],
      generation = 1, outbox = [(2, ''en'')]\<rparr>"

definition rootlessPage :: state where
  "rootlessPage =
     \<lparr>components = rootlessStore, currentLang = ''en'', rendered = [], generation = 1,
      outbox = [(1, ''en'')]\<rparr>"
section \<open>Properties\<close>

subsection \<open>Auxiliary facts\<close>

lemma those_map_Some:
  "those (map f xs) = Some ys \<longleftrightarrow> list_all2 (\<lambda>x y. f x = Some y) xs ys"
proof (induction xs arbitrary: ys)
  case Nil
  then show ?case by auto
next
  case (Cons x xs)
  show ?case
  proof (cases "f x")
    case None
    then show ?thesis by (auto simp: list_all2_Cons1)
  next
    case (Some y)
    then show ?thesis using Cons.IH by (auto simp: list_all2_Cons1)
  qed
qed

lemma those_map_total:
  "(\<And>x. x \<in> set xs \<Longrightarrow> f x \<noteq> None) \<Longrightarrow> \<exists>ys. those (map f xs) = Some ys"
proof (induction xs)
  case Nil
  then show ?case by simp
next
  case (Cons x xs)
  then obtain ys where "those (map f xs) = Some ys" by auto
  moreover obtain y where "f x = Some y" using Cons.prems[of x] by auto
  ultimately show ?case by simp
qed

lemma fold_raised:
  "fold (\<lambda>(k, v) r. case r of None \<Rightarrow> None | Some el \<Rightarrow> f k v el) kvs None = None"
  by (induction kvs) auto

lemma fold_setAttribute:
  "fold (\<lambda>(k, v) r. case r of None \<Rightarrow> None | Some el \<Rightarrow> setAttribute env k v el) kvs
     (Some (Element t a s x c ks)) =
   (if \<forall>k \<in> fst ` set kvs. validAttributeName env k
    then Some (Element t (fold (\<lambda>(k, v). AList.update (lowerName k) v) kvs a) s x c ks)
    else None)"
proof (induction kvs arbitrary: a)
  case Nil
  show ?case by simp
next
  case (Cons kv kvs)
  obtain k v where kv: "kv = (k, v)" by (cases kv)
  show ?case unfolding kv using Cons.IH by (simp add: fold_raised)
qed

lemma fold_setStyle:
  "fold (\<lambda>(k, v). setStyle env k v) kvs (Element t a s x c ks) =
   Element t a (fold (\<lambda>(k, v) st. if validStyle env k v then AList.update k v st else st) kvs s)
     x c ks"
  by (induction kvs arbitrary: s) auto

lemma newElement_eq:
  "newElement env c = (if namesAccepted env c then Some (stamped env c) else None)"
  by (simp add: newElement_def createElement_def namesAccepted_def stamped_def fold_setStyle
      fold_setAttribute Let_def)

lemma stamped_sel [simp]:
  "textContent (stamped env c) = None" "childNodes (stamped env c) = []"
  "selected (stamped env c) = False"
  by (simp_all add: stamped_def)

lemma buildElement_step:
  "buildElement env (Suc n) comps lang c =
     (if \<not> namesAccepted env c then None
      else if children comps c = [] then
        Some (case contentText lang c of None \<Rightarrow> stamped env c
              | Some t \<Rightarrow> setTextContent t (stamped env c))
      else map_option (\<lambda>ks. fold appendChild ks (stamped env c))
             (those (map (buildElement env n comps lang) (children comps c))))"
  by (simp add: newElement_eq Let_def split: option.splits)

declare buildElement.simps(2) [simp del]

lemma buildElement_names:
  "buildElement env n comps lang c = Some e \<Longrightarrow> namesAccepted env c"
  by (cases n) (auto simp: buildElement_step split: if_splits)

lemma buildElement_Suc:
  "buildElement env n comps lang c = Some e \<Longrightarrow> buildElement env (Suc n) comps lang c = Some e"
proof (induction n arbitrary: c e)
  case 0
  then show ?case by simp
next
  case (Suc n)
  show ?case
  proof (cases "children comps c = []")
    case True
    then show ?thesis using Suc.prems by (simp add: buildElement_step split: if_splits)
  next
    case False
    have na: "namesAccepted env c" using Suc.prems by (rule buildElement_names)
    obtain ks where ks: "those (map (buildElement env n comps lang) (children comps c)) = Some ks"
      and e: "e = fold appendChild ks (stamped env c)"
      using Suc.prems False na by (auto simp: buildElement_step)
    have "list_all2 (\<lambda>x y. buildElement env n comps lang x = Some y) (children comps c) ks"
      using ks by (simp add: those_map_Some)
    then have "list_all2 (\<lambda>x y. buildElement env (Suc n) comps lang x = Some y) (children comps c) ks"
      by (rule list_all2_mono) (rule Suc.IH)
    then have "those (map (buildElement env (Suc n) comps lang) (children comps c)) = Some ks"
      by (simp add: those_map_Some)
    then show ?thesis using False e na by (simp add: buildElement_step)
  qed
qed

lemma buildElement_mono:
  "buildElement env n comps lang c = Some e \<Longrightarrow> n \<le> m \<Longrightarrow> buildElement env m comps lang c = Some e"
  by (induction m) (auto simp: le_Suc_eq buildElement_Suc simp del: buildElement.simps)

lemma set_children: "set (children comps c) = {x \<in> set comps. parentId x = Some (cid c)}"
  by (auto simp: children_def)

lemma children_parentRel:
  "ch \<in> set (children comps c) \<Longrightarrow> (cid c, cid ch) \<in> parentRel comps"
  by (auto simp: set_children parentRel_def)

lemma finite_parentRel: "finite (parentRel comps)"
proof -
  have "parentRel comps \<subseteq> (\<lambda>c. (the (parentId c), cid c)) ` set comps"
    by (force simp: parentRel_def image_iff)
  then show ?thesis by (rule finite_subset) simp
qed

lemma acyclic_cycleFree: "acyclic (parentRel comps) \<Longrightarrow> cycleFree comps i"
  by (auto simp: cycleFree_def acyclic_def)

lemma cycleFree_step: "cycleFree comps i \<Longrightarrow> (i, j) \<in> parentRel comps \<Longrightarrow> cycleFree comps j"
  by (auto simp: cycleFree_def intro: converse_rtrancl_into_rtrancl)

lemma below_wf:
  assumes "cycleFree comps i"
  shows "wf ((parentRel comps \<inter> ((parentRel comps)\<^sup>* `` {i}) \<times> UNIV)\<inverse>)"
proof -
  let ?R = "parentRel comps"
  let ?S = "?R \<inter> (?R\<^sup>* `` {i}) \<times> UNIV"
  have fin: "finite ?S" using finite_parentRel by blast
  have step: "(a, b) \<in> ?S\<^sup>+ \<Longrightarrow> (a, b) \<in> ?R\<^sup>+ \<and> (i, a) \<in> ?R\<^sup>*" for a b
    by (induction rule: trancl_induct) (auto intro: trancl_into_trancl)
  have "acyclic ?S"
    unfolding acyclic_def
  proof (intro allI notI)
    fix x assume "(x, x) \<in> ?S\<^sup>+"
    then have "(x, x) \<in> ?R\<^sup>+" "(i, x) \<in> ?R\<^sup>*" using step by blast+
    then show False using assms by (auto simp: cycleFree_def)
  qed
  then show ?thesis using fin by (rule finite_acyclic_wf_converse[rotated])
qed

lemma uniform_bound:
  fixes Q :: "'a \<Rightarrow> nat \<Rightarrow> bool"
  assumes "\<And>x. x \<in> set xs \<Longrightarrow> \<exists>n. \<forall>m\<ge>n. Q x m"
  shows "\<exists>n. \<forall>m\<ge>n. \<forall>x\<in>set xs. Q x m"
  using assms
proof (induction xs)
  case Nil
  then show ?case by simp
next
  case (Cons x xs)
  then obtain n1 where n1: "\<forall>m\<ge>n1. \<forall>y\<in>set xs. Q y m" by auto
  obtain n2 where n2: "\<forall>m\<ge>n2. Q x m" using Cons.prems[of x] by auto
  have "\<forall>m\<ge>max n1 n2. \<forall>y\<in>set (x # xs). Q y m" using n1 n2 by auto
  then show ?case by blast
qed

lemma buildElement_terminates:
  assumes "cycleFree comps (cid c)" "namesAccepted env c"
    and "\<forall>x\<in>set comps. (cid c, cid x) \<in> (parentRel comps)\<^sup>* \<longrightarrow> namesAccepted env x"
  shows "\<exists>n. \<forall>m\<ge>n. buildElement env m comps lang c \<noteq> None"
proof -
  let ?R = "parentRel comps"
  let ?S = "?R \<inter> (?R\<^sup>* `` {cid c}) \<times> UNIV"
  have wf: "wf (?S\<inverse>)" using assms(1) by (rule below_wf)
  have "(cid c, i) \<in> ?R\<^sup>* \<longrightarrow>
        (\<forall>c'::component. cid c' = i \<and> namesAccepted env c' \<longrightarrow>
           (\<exists>n. \<forall>m\<ge>n. buildElement env m comps lang c' \<noteq> None))" for i
    using wf
  proof (induction i rule: wf_induct_rule)
    case (less i)
    show ?case
    proof (intro impI allI)
      fix c' :: component
      assume reach: "(cid c, i) \<in> ?R\<^sup>*" and c'': "cid c' = i \<and> namesAccepted env c'"
      then have c': "cid c' = i" and na: "namesAccepted env c'" by simp_all
      have "\<exists>n. \<forall>m\<ge>n. buildElement env m comps lang ch \<noteq> None"
        if ch: "ch \<in> set (children comps c')" for ch
      proof -
        have r: "(i, cid ch) \<in> ?R" using children_parentRel[OF ch] c' by simp
        then have "(cid ch, i) \<in> ?S\<inverse>" using reach by auto
        moreover have below: "(cid c, cid ch) \<in> ?R\<^sup>*" using reach r by (rule rtrancl_into_rtrancl)
        moreover have "ch \<in> set comps" using ch by (simp add: set_children)
        then have "namesAccepted env ch" using assms(3) below by blast
        ultimately show ?thesis using less.IH[of "cid ch"] by blast
      qed
      then obtain n where n: "\<forall>m\<ge>n. \<forall>ch\<in>set (children comps c'). buildElement env m comps lang ch \<noteq> None"
        using uniform_bound[of "children comps c'" "\<lambda>ch m. buildElement env m comps lang ch \<noteq> None"] by blast
      have "buildElement env m comps lang c' \<noteq> None" if mn: "m \<ge> Suc n" for m
      proof -
        obtain k where m: "m = Suc k" and k: "k \<ge> n" using mn by (cases m) auto
        have "\<exists>ys. those (map (buildElement env k comps lang) (children comps c')) = Some ys"
          by (rule those_map_total) (use n k in blast)
        then show ?thesis unfolding m using na by (auto simp: buildElement_step)
      qed
      then show "\<exists>n. \<forall>m\<ge>n. buildElement env m comps lang c' \<noteq> None" by blast
    qed
  qed
  then show ?thesis using assms(2) by blast
qed

lemma fold_appendChild:
  "fold appendChild es (Element t a s x c ks) = Element t a s x c (ks @ es)"
  by (induction es arbitrary: ks) auto

lemma setTextContent_sel [simp]:
  "textContent (setTextContent txt e) = Some txt" "childNodes (setTextContent txt e) = []"
  "attrs (setTextContent txt e) = attrs e" "tagName (setTextContent txt e) = tagName e"
  "style (setTextContent txt e) = style e" "selected (setTextContent txt e) = selected e"
  by (cases e; simp)+

lemma fold_appendChild_sel [simp]:
  "childNodes (fold appendChild es e) = childNodes e @ es"
  "textContent (fold appendChild es e) = textContent e"
  "attrs (fold appendChild es e) = attrs e" "tagName (fold appendChild es e) = tagName e"
  "style (fold appendChild es e) = style e" "selected (fold appendChild es e) = selected e"
  by (cases e; simp add: fold_appendChild)+

lemma buildElement_cases:
  assumes "buildElement env n comps lang c = Some e"
  obtains (leaf) k where "n = Suc k" "children comps c = []"
      "e = (case contentText lang c of None \<Rightarrow> stamped env c | Some t \<Rightarrow> setTextContent t (stamped env c))"
      "namesAccepted env c"
  | (inner) k ks where "n = Suc k" "children comps c \<noteq> []"
      "list_all2 (\<lambda>ch d. buildElement env k comps lang ch = Some d) (children comps c) ks"
      "e = fold appendChild ks (stamped env c)"
      "namesAccepted env c"
proof -
  obtain k where n: "n = Suc k" using assms by (cases n) auto
  have na: "namesAccepted env c" using assms by (rule buildElement_names)
  show thesis
  proof (cases "children comps c = []")
    case True
    then show ?thesis using assms leaf na unfolding n by (auto simp: buildElement_step)
  next
    case False
    then show ?thesis using assms inner na unfolding n by (auto simp: buildElement_step those_map_Some)
  qed
qed

lemma buildElement_leaf:
  assumes "buildElement env n comps lang c = Some e" "children comps c = []"
  shows "childNodes e = []" "textContent e = contentText lang c"
  using assms by (auto elim!: buildElement_cases split: option.splits)

lemma buildElement_inner:
  assumes "buildElement env n comps lang c = Some e" "children comps c \<noteq> []"
  shows "textContent e = None"
    and "list_all2 (\<lambda>ch k. buildElement env (n - 1) comps lang ch = Some k) (children comps c) (childNodes e)"
  using assms by (auto elim!: buildElement_cases)




lemma list_all2_setD:
  assumes "list_all2 P xs ys"
  shows "\<forall>y\<in>set ys. \<exists>x\<in>set xs. P x y" "\<forall>x\<in>set xs. \<exists>y\<in>set ys. P x y"
  using assms by (induction rule: list_all2_induct) auto

lemma buildCalls_cases:
  assumes "buildCalls n comps c = Some rs"
  obtains k rss where "n = Suc k"
      "list_all2 (\<lambda>ch r. buildCalls k comps ch = Some r) (children comps c) rss"
      "rs = c # concat rss"
proof -
  obtain k where n: "n = Suc k" using assms by (cases n) auto
  show thesis using assms that unfolding n by (auto simp: those_map_Some)
qed

lemma nodes_fold_appendChild:
  "childNodes e = [] \<Longrightarrow> nodes (fold appendChild ks e) = fold appendChild ks e # concat (map nodes ks)"
  by (cases e) (simp add: fold_appendChild)

lemma nodes_leaf: "childNodes e = [] \<Longrightarrow> nodes e = [e]"
  by (cases e) simp

text \<open>The tree built and the trace of calls agree: node by node, the attributes and the tag
  are those of the element created for the record.\<close>

lemma buildElement_buildCalls:
  "buildElement env n comps lang c = Some e \<Longrightarrow>
   \<exists>rs. buildCalls n comps c = Some rs \<and>
        map attrs (nodes e) = map (\<lambda>r. attrs (stamped env r)) rs \<and>
        map tagName (nodes e) = map (\<lambda>r. tagName (stamped env r)) rs"
proof (induction n arbitrary: c e)
  case 0
  then show ?case by simp
next
  case (Suc n)
  from Suc.prems show ?case
  proof (cases rule: buildElement_cases)
    case (leaf k)
    then show ?thesis by (auto simp: nodes_leaf split: option.splits)
  next
    case (inner k ks)
    then have k: "k = n" by simp
    have "\<exists>rss. list_all2 (\<lambda>ch r. buildCalls n comps ch = Some r) (children comps c) rss \<and>
            map (\<lambda>d. map attrs (nodes d)) ks = map (map (\<lambda>r. attrs (stamped env r))) rss \<and>
            map (\<lambda>d. map tagName (nodes d)) ks = map (map (\<lambda>r. tagName (stamped env r))) rss"
      using inner(3) unfolding k
    proof (induction rule: list_all2_induct)
      case Nil
      then show ?case by simp
    next
      case (Cons ch chs d ds)
      from Suc.IH[OF Cons(1)] obtain r where
        "buildCalls n comps ch = Some r" "map attrs (nodes d) = map (\<lambda>r. attrs (stamped env r)) r"
        "map tagName (nodes d) = map (\<lambda>r. tagName (stamped env r)) r" by blast
      moreover from Cons.IH obtain rss where
        "list_all2 (\<lambda>ch r. buildCalls n comps ch = Some r) chs rss"
        "map (\<lambda>d. map attrs (nodes d)) ds = map (map (\<lambda>r. attrs (stamped env r))) rss"
        "map (\<lambda>d. map tagName (nodes d)) ds = map (map (\<lambda>r. tagName (stamped env r))) rss" by blast
      ultimately show ?case by (intro exI[of _ "r # rss"]) simp
    qed
    then obtain rss where rss:
      "list_all2 (\<lambda>ch r. buildCalls n comps ch = Some r) (children comps c) rss"
      "map (\<lambda>d. map attrs (nodes d)) ks = map (map (\<lambda>r. attrs (stamped env r))) rss"
      "map (\<lambda>d. map tagName (nodes d)) ks = map (map (\<lambda>r. tagName (stamped env r))) rss" by blast
    have "those (map (buildCalls n comps) (children comps c)) = Some rss"
      using rss(1) by (simp add: those_map_Some)
    then have calls: "buildCalls (Suc n) comps c = Some (c # concat rss)"
      by simp
    have "map attrs (concat (map nodes ks)) = concat (map (\<lambda>d. map attrs (nodes d)) ks)"
      by (simp add: map_concat comp_def)
    then have a: "map attrs (concat (map nodes ks)) = map (\<lambda>r. attrs (stamped env r)) (concat rss)"
      using rss(2) by (simp add: map_concat)
    have "map tagName (concat (map nodes ks)) = concat (map (\<lambda>d. map tagName (nodes d)) ks)"
      by (simp add: map_concat comp_def)
    then have t: "map tagName (concat (map nodes ks)) = map (\<lambda>r. tagName (stamped env r)) (concat rss)"
      using rss(3) by (simp add: map_concat)
    show ?thesis using calls a t inner(4)
      by (simp add: nodes_fold_appendChild del: buildCalls.simps)
  qed
qed

lemma rtrancl_first:
  "(i, x) \<in> R\<^sup>* \<longleftrightarrow> x = i \<or> (\<exists>j. (i, j) \<in> R \<and> (j, x) \<in> R\<^sup>*)"
proof
  assume "(i, x) \<in> R\<^sup>*"
  then show "x = i \<or> (\<exists>j. (i, j) \<in> R \<and> (j, x) \<in> R\<^sup>*)"
    by (cases rule: converse_rtranclE) auto
next
  assume "x = i \<or> (\<exists>j. (i, j) \<in> R \<and> (j, x) \<in> R\<^sup>*)"
  then show "(i, x) \<in> R\<^sup>*"
    by (auto intro: converse_rtrancl_into_rtrancl)
qed

lemma parentRel_children:
  "(cid c, j) \<in> parentRel comps \<longleftrightarrow> (\<exists>ch\<in>set (children comps c). cid ch = j)"
  by (auto simp: parentRel_def set_children)

lemma buildCalls_ids:
  "buildCalls n comps c = Some rs \<Longrightarrow> cid ` set rs = (parentRel comps)\<^sup>* `` {cid c}"
proof (induction n arbitrary: c rs)
  case 0
  then show ?case by simp
next
  case (Suc n)
  from Suc.prems obtain k rss where "Suc n = Suc k"
    "list_all2 (\<lambda>ch r. buildCalls k comps ch = Some r) (children comps c) rss"
    "rs = c # concat rss"
    by (rule buildCalls_cases)
  then have rss: "list_all2 (\<lambda>ch r. buildCalls n comps ch = Some r) (children comps c) rss"
    and rs: "rs = c # concat rss" by simp_all
  let ?R = "parentRel comps"
  have ih: "cid ` set r = ?R\<^sup>* `` {cid ch}" if "buildCalls n comps ch = Some r" for ch r
    using Suc.IH that by blast
  show ?case
  proof (intro set_eqI iffI)
    fix x assume "x \<in> cid ` set rs"
    then consider "x = cid c" | r where "r \<in> set rss" "x \<in> cid ` set r"
      unfolding rs by auto
    then show "x \<in> ?R\<^sup>* `` {cid c}"
    proof cases
      case 1
      then show ?thesis by simp
    next
      case 2
      then obtain ch where ch: "ch \<in> set (children comps c)" "buildCalls n comps ch = Some r"
        using list_all2_setD(1)[OF rss] by blast
      then have "(cid ch, x) \<in> ?R\<^sup>*" using ih 2 by blast
      moreover have "(cid c, cid ch) \<in> ?R" using ch(1) by (rule children_parentRel)
      ultimately show ?thesis by (auto intro: converse_rtrancl_into_rtrancl)
    qed
  next
    fix x assume "x \<in> ?R\<^sup>* `` {cid c}"
    then have "x = cid c \<or> (\<exists>j. (cid c, j) \<in> ?R \<and> (j, x) \<in> ?R\<^sup>*)"
      using rtrancl_first[of "cid c" x ?R] by simp
    then show "x \<in> cid ` set rs"
    proof
      assume "x = cid c"
      then show ?thesis unfolding rs by simp
    next
      assume "\<exists>j. (cid c, j) \<in> ?R \<and> (j, x) \<in> ?R\<^sup>*"
      then obtain ch where ch: "ch \<in> set (children comps c)" "(cid ch, x) \<in> ?R\<^sup>*"
        by (auto simp: parentRel_children)
      then obtain r where r: "r \<in> set rss" "buildCalls n comps ch = Some r"
        using list_all2_setD(2)[OF rss] by blast
      then have "x \<in> cid ` set r" using ih ch(2) by blast
      then show ?thesis unfolding rs using r(1) by auto
    qed
  qed
qed

lemma buildCalls_subset:
  "buildCalls n comps c = Some rs \<Longrightarrow> set rs \<subseteq> insert c (set comps)"
proof (induction n arbitrary: c rs)
  case 0
  then show ?case by simp
next
  case (Suc n)
  from Suc.prems obtain k rss where "Suc n = Suc k"
    "list_all2 (\<lambda>ch r. buildCalls k comps ch = Some r) (children comps c) rss"
    "rs = c # concat rss"
    by (rule buildCalls_cases)
  then have rss: "list_all2 (\<lambda>ch r. buildCalls n comps ch = Some r) (children comps c) rss"
    and rs: "rs = c # concat rss" by simp_all
  have "set r \<subseteq> set comps" if r: "r \<in> set rss" for r
  proof -
    obtain ch where ch: "ch \<in> set (children comps c)" "buildCalls n comps ch = Some r"
      using list_all2_setD(1)[OF rss] r by blast
    then have "set r \<subseteq> insert ch (set comps)" using Suc.IH by blast
    moreover have "ch \<in> set comps" using ch(1) by (simp add: set_children)
    ultimately show ?thesis by auto
  qed
  then show ?case unfolding rs by auto
qed

lemma single_parent:
  assumes "distinct (map cid comps)" "(a, x) \<in> parentRel comps" "(b, x) \<in> parentRel comps"
  shows "a = b"
proof -
  obtain c where c: "c \<in> set comps" "parentId c = Some a" "cid c = x"
    using assms(2) by (auto simp: parentRel_def)
  obtain c' where c': "c' \<in> set comps" "parentId c' = Some b" "cid c' = x"
    using assms(3) by (auto simp: parentRel_def)
  have "inj_on cid (set comps)" using assms(1) by (simp add: distinct_map)
  then have "c = c'" using c c' by (auto dest: inj_onD)
  then show ?thesis using c c' by simp
qed

lemma comparable:
  assumes sp: "\<And>a b x. (a, x) \<in> R \<Longrightarrow> (b, x) \<in> R \<Longrightarrow> a = b"
    and "(a, x) \<in> R\<^sup>*" "(b, x) \<in> R\<^sup>*"
  shows "(a, b) \<in> R\<^sup>* \<or> (b, a) \<in> R\<^sup>*"
  using assms(2,3)
proof (induction arbitrary: b rule: rtrancl_induct)
  case base
  then show ?case by simp
next
  case (step y z)
  from step.prems show ?case
  proof (cases rule: rtranclE)
    case base
    then show ?thesis using step.hyps by (auto intro: rtrancl_into_rtrancl)
  next
    case (step y')
    then have "y' = y" using sp step.hyps(2) by blast
    then show ?thesis using step.IH \<open>(b, y') \<in> R\<^sup>*\<close> by blast
  qed
qed

lemma siblings_disjoint:
  assumes d: "distinct (map cid comps)" and cf: "cycleFree comps p"
    and a: "(p, a) \<in> parentRel comps" and b: "(p, b) \<in> parentRel comps" and ab: "a \<noteq> b"
  shows "(parentRel comps)\<^sup>* `` {a} \<inter> (parentRel comps)\<^sup>* `` {b} = {}"
proof -
  let ?R = "parentRel comps"
  have no: "(u, v) \<in> ?R\<^sup>* \<Longrightarrow> (p, u) \<in> ?R \<Longrightarrow> (p, v) \<in> ?R \<Longrightarrow> u \<noteq> v \<Longrightarrow> False" for u v
  proof -
    assume uv: "(u, v) \<in> ?R\<^sup>*" and pu: "(p, u) \<in> ?R" and pv: "(p, v) \<in> ?R" and ne: "u \<noteq> v"
    from uv ne obtain y where y: "(u, y) \<in> ?R\<^sup>*" "(y, v) \<in> ?R"
      by (cases rule: rtranclE) auto
    have "y = p" using single_parent[OF d y(2) pv] .
    then have "(p, p) \<in> ?R\<^sup>+" using pu y(1) by (auto intro: rtrancl_into_trancl2)
    then show False using cf by (auto simp: cycleFree_def)
  qed
  show ?thesis
  proof (rule ccontr)
    assume "?R\<^sup>* `` {a} \<inter> ?R\<^sup>* `` {b} \<noteq> {}"
    then obtain x where "(a, x) \<in> ?R\<^sup>*" "(b, x) \<in> ?R\<^sup>*" by auto
    then have "(a, b) \<in> ?R\<^sup>* \<or> (b, a) \<in> ?R\<^sup>*"
      using comparable[of ?R a x b] single_parent[OF d] by blast
    then show False using no[of a b] no[of b a] a b ab by blast
  qed
qed

lemma children_distinct:
  "distinct (map cid comps) \<Longrightarrow> distinct (map cid (children comps c))"
proof -
  assume d: "distinct (map cid comps)"
  have "distinct (map cid (filter (\<lambda>x. parentId x = Some (cid c)) comps))"
    using d by (rule distinct_map_filter)
  moreover have "mset (map cid (children comps c)) =
      mset (map cid (filter (\<lambda>x. parentId x = Some (cid c)) comps))"
    by (simp add: children_def)
  ultimately show ?thesis using mset_eq_imp_distinct_iff by blast
qed

lemma distinct_concat_family:
  assumes "list_all2 P xs yss"
    and "distinct (map key xs)"
    and "\<And>x ys. x \<in> set xs \<Longrightarrow> P x ys \<Longrightarrow> distinct ys \<and> set ys \<subseteq> D (key x)"
    and "\<And>x x'. x \<in> set xs \<Longrightarrow> x' \<in> set xs \<Longrightarrow> key x \<noteq> key x' \<Longrightarrow> D (key x) \<inter> D (key x') = {}"
  shows "distinct (concat yss)"
  using assms
proof (induction rule: list_all2_induct)
  case Nil
  then show ?case by simp
next
  case (Cons x xs ys yss)
  have 1: "distinct ys" "set ys \<subseteq> D (key x)" using Cons.prems(2)[of x ys] Cons.hyps(1) by auto
  have 2: "distinct (concat yss)" using Cons by auto
  have 3: "set ys \<inter> set zs = {}" if zs: "zs \<in> set yss" for zs
  proof -
    obtain x' where x': "x' \<in> set xs" "P x' zs" using list_all2_setD(1)[OF Cons.hyps(2)] zs by blast
    then have "set zs \<subseteq> D (key x')" using Cons.prems(2)[of x' zs] by auto
    moreover have "key x \<noteq> key x'" using Cons.prems(1) x'(1) by auto
    then have "D (key x) \<inter> D (key x') = {}" using Cons.prems(3)[of x x'] x'(1) by auto
    ultimately show ?thesis using 1(2) by blast
  qed
  show ?case using 1 2 3 by auto
qed

lemma buildCalls_distinct:
  assumes d: "distinct (map cid comps)"
  shows "buildCalls n comps c = Some rs \<Longrightarrow> cycleFree comps (cid c) \<Longrightarrow> distinct (map cid rs)"
proof (induction n arbitrary: c rs)
  case 0
  then show ?case by simp
next
  case (Suc n)
  let ?R = "parentRel comps"
  from Suc.prems(1) obtain k rss where "Suc n = Suc k"
    "list_all2 (\<lambda>ch r. buildCalls k comps ch = Some r) (children comps c) rss"
    "rs = c # concat rss"
    by (rule buildCalls_cases)
  then have rss: "list_all2 (\<lambda>ch r. buildCalls n comps ch = Some r) (children comps c) rss"
    and rs: "rs = c # concat rss" by simp_all
  have rss': "list_all2 (\<lambda>ch is. \<exists>r. buildCalls n comps ch = Some r \<and> is = map cid r)
      (children comps c) (map (map cid) rss)"
    unfolding list_all2_map2 using rss by (rule list_all2_mono) simp
  have below: "distinct is \<and> set is \<subseteq> ?R\<^sup>* `` {cid ch}"
    if ch: "ch \<in> set (children comps c)" and r: "\<exists>r. buildCalls n comps ch = Some r \<and> is = map cid r"
    for ch "is"
  proof -
    obtain r where r: "buildCalls n comps ch = Some r" "is = map cid r" using r by blast
    have "cycleFree comps (cid ch)"
      using Suc.prems(2) children_parentRel[OF ch] by (rule cycleFree_step)
    then have "distinct is" using Suc.IH r by blast
    moreover have "set is = ?R\<^sup>* `` {cid ch}" using buildCalls_ids[OF r(1)] r(2) by simp
    ultimately show ?thesis by simp
  qed
  have disj: "?R\<^sup>* `` {cid x} \<inter> ?R\<^sup>* `` {cid x'} = {}"
    if "x \<in> set (children comps c)" "x' \<in> set (children comps c)" "cid x \<noteq> cid x'" for x x'
    using siblings_disjoint[OF d Suc.prems(2)] that children_parentRel by blast
  have "distinct (concat (map (map cid) rss))"
    using distinct_concat_family[OF rss' children_distinct[OF d, of c],
        of "\<lambda>i. ?R\<^sup>* `` {i}"] below disj by blast
  then have dd: "distinct (map cid (concat rss))" by (simp add: map_concat)
  have "cid c \<notin> cid ` set (concat rss)"
  proof
    assume "cid c \<in> cid ` set (concat rss)"
    then obtain r where r: "r \<in> set rss" "cid c \<in> cid ` set r" by auto
    then obtain ch where ch: "ch \<in> set (children comps c)" "buildCalls n comps ch = Some r"
      using list_all2_setD(1)[OF rss] by blast
    then have "(cid ch, cid c) \<in> ?R\<^sup>*" using buildCalls_ids[OF ch(2)] r(2) by auto
    moreover have "(cid c, cid ch) \<in> ?R" using ch(1) by (rule children_parentRel)
    ultimately have "(cid c, cid c) \<in> ?R\<^sup>+" by (auto intro: rtrancl_into_trancl2)
    then show False using Suc.prems(2) by (auto simp: cycleFree_def)
  qed
  then show ?case using dd unfolding rs by simp
qed

lemma nodes_text_inner:
  "buildElement env n comps lang c = Some e \<Longrightarrow> d \<in> set (nodes e) \<Longrightarrow> childNodes d \<noteq> [] \<Longrightarrow>
   textContent d = None"
proof (induction n arbitrary: c e d)
  case 0
  then show ?case by simp
next
  case (Suc n)
  from Suc.prems(1) show ?case
  proof (cases rule: buildElement_cases)
    case (leaf k)
    then have "childNodes e = []" by (auto split: option.splits)
    then show ?thesis using Suc.prems(2,3) by (simp add: nodes_leaf)
  next
    case (inner k ks)
    have e: "textContent e = None" using inner(4) by simp
    have "nodes e = e # concat (map nodes ks)"
      using inner(4) by (simp add: nodes_fold_appendChild)
    then consider "d = e" | k' where "k' \<in> set ks" "d \<in> set (nodes k')"
      using Suc.prems(2) by auto
    then show ?thesis
    proof cases
      case 1
      then show ?thesis using e by simp
    next
      case 2
      then obtain ch where "buildElement env k comps lang ch = Some k'"
        using list_all2_setD(1)[OF inner(3)] by blast
      then show ?thesis using Suc.IH[of ch k' d] 2(2) Suc.prems(3) inner(1) by simp
    qed
  qed
qed

lemma parentRel_acyclicI:
  assumes "\<And>c p. c \<in> set comps \<Longrightarrow> parentId c = Some p \<Longrightarrow> p < cid c"
  shows "acyclic (parentRel comps)"
proof -
  have step: "a < b" if "(a, b) \<in> parentRel comps" for a b
    using that assms by (auto simp: parentRel_def)
  have "a < b" if "(a, b) \<in> (parentRel comps)\<^sup>+" for a b
    using that by (induction rule: trancl_induct) (auto dest: step)
  then show ?thesis by (auto simp: acyclic_def)
qed




lemma fold_findChildren_None:
  "fold (\<lambda>c acc. case acc of None \<Rightarrow> None | Some ids \<Rightarrow> f c ids) xs None = None"
  by (induction xs) auto

lemma fold_findChildren_set:
  assumes "\<And>c ids ids'. c \<in> set xs \<Longrightarrow> f c (ids @ [cid c]) = Some ids' \<Longrightarrow>
             set ids' = set ids \<union> R\<^sup>* `` {cid c}"
    and "fold (\<lambda>c acc. case acc of None \<Rightarrow> None | Some ids \<Rightarrow> f c (ids @ [cid c])) xs (Some acc) = Some out"
  shows "set out = set acc \<union> (\<Union>c\<in>set xs. R\<^sup>* `` {cid c})"
  using assms
proof (induction xs arbitrary: acc)
  case Nil
  then show ?case by simp
next
  case (Cons x xs)
  show ?case
  proof (cases "f x (acc @ [cid x])")
    case None
    then show ?thesis using Cons.prems(2) by (simp add: fold_findChildren_None)
  next
    case (Some mid)
    have 1: "set mid = set acc \<union> R\<^sup>* `` {cid x}" using Cons.prems(1)[of x acc mid] Some by simp
    have "fold (\<lambda>c acc. case acc of None \<Rightarrow> None | Some ids \<Rightarrow> f c (ids @ [cid c])) xs (Some mid) = Some out"
      using Cons.prems(2) Some by simp
    then have "set out = set mid \<union> (\<Union>c\<in>set xs. R\<^sup>* `` {cid c})"
      using Cons.IH[of mid] Cons.prems(1) by simp
    then show ?thesis using 1 by auto
  qed
qed

lemma parentRel_trancl_children:
  "(parentRel comps)\<^sup>+ `` {p} =
   (\<Union>c\<in>set (filter (\<lambda>c. parentId c = Some p) comps). (parentRel comps)\<^sup>* `` {cid c})"
proof -
  let ?R = "parentRel comps"
  have "(p, x) \<in> ?R\<^sup>+ \<longleftrightarrow> (\<exists>j. (p, j) \<in> ?R \<and> (j, x) \<in> ?R\<^sup>*)" for x
    by (metis tranclD rtrancl_into_trancl2)
  then show ?thesis by (auto simp: parentRel_def)
qed

lemma findChildren_set:
  "findChildren n comps p acc = Some out \<Longrightarrow> set out = set acc \<union> (parentRel comps)\<^sup>+ `` {p}"
proof (induction n arbitrary: p acc out)
  case 0
  then show ?case by simp
next
  case (Suc n)
  let ?R = "parentRel comps"
  have step: "set ids' = set ids \<union> ?R\<^sup>* `` {cid c}"
    if "findChildren n comps (cid c) (ids @ [cid c]) = Some ids'" for c ids ids'
  proof -
    have "set ids' = set (ids @ [cid c]) \<union> ?R\<^sup>+ `` {cid c}" using Suc.IH that by blast
    moreover have "?R\<^sup>* `` {cid c} = insert (cid c) (?R\<^sup>+ `` {cid c})"
      by (auto simp: rtrancl_eq_or_trancl)
    ultimately show ?thesis by auto
  qed
  have f: "fold (\<lambda>c acc. case acc of None \<Rightarrow> None
                 | Some ids \<Rightarrow> findChildren n comps (cid c) (ids @ [cid c]))
             (filter (\<lambda>c. parentId c = Some p) comps) (Some acc) = Some out"
    using Suc.prems by simp
  have "set out = set acc \<union> (\<Union>c\<in>set (filter (\<lambda>c. parentId c = Some p) comps). ?R\<^sup>* `` {cid c})"
  proof (rule fold_findChildren_set[where f = "\<lambda>c. findChildren n comps (cid c)"])
    show "set ids' = set ids \<union> ?R\<^sup>* `` {cid c}"
      if "findChildren n comps (cid c) (ids @ [cid c]) = Some ids'" for c ids ids'
      using that by (rule step)
    show "fold (\<lambda>c acc. case acc of None \<Rightarrow> None
                 | Some ids \<Rightarrow> findChildren n comps (cid c) (ids @ [cid c]))
             (filter (\<lambda>c. parentId c = Some p) comps) (Some acc) = Some out"
      by (rule f)
  qed
  then show ?case by (simp only: parentRel_trancl_children)
qed

lemma fold_findChildren_total:
  assumes "\<And>c ids. c \<in> set xs \<Longrightarrow> f c ids \<noteq> None"
  shows "fold (\<lambda>c acc. case acc of None \<Rightarrow> None | Some ids \<Rightarrow> f c (ids @ [cid c])) xs (Some acc) \<noteq> None"
  using assms
proof (induction xs arbitrary: acc)
  case Nil
  then show ?case by simp
next
  case (Cons x xs)
  obtain mid where "f x (acc @ [cid x]) = Some mid" using Cons.prems[of x] by auto
  then show ?case using Cons.IH[of mid] Cons.prems by simp
qed

lemma findChildren_terminates:
  assumes "cycleFree comps p"
  shows "\<exists>n. \<forall>m\<ge>n. \<forall>acc. findChildren m comps p acc \<noteq> None"
proof -
  let ?R = "parentRel comps"
  let ?S = "?R \<inter> (?R\<^sup>* `` {p}) \<times> UNIV"
  have wf: "wf (?S\<inverse>)" using assms by (rule below_wf)
  have "(p, i) \<in> ?R\<^sup>* \<longrightarrow> (\<exists>n. \<forall>m\<ge>n. \<forall>acc. findChildren m comps i acc \<noteq> None)" for i
    using wf
  proof (induction i rule: wf_induct_rule)
    case (less i)
    show ?case
    proof
      assume reach: "(p, i) \<in> ?R\<^sup>*"
      let ?xs = "filter (\<lambda>c. parentId c = Some i) comps"
      have "\<exists>n. \<forall>m\<ge>n. \<forall>acc. findChildren m comps (cid ch) acc \<noteq> None" if ch: "ch \<in> set ?xs" for ch
      proof -
        have r: "(i, cid ch) \<in> ?R" using ch by (auto simp: parentRel_def)
        then have "(cid ch, i) \<in> ?S\<inverse>" using reach by auto
        moreover have "(p, cid ch) \<in> ?R\<^sup>*" using reach r by (rule rtrancl_into_rtrancl)
        ultimately show ?thesis using less.IH[of "cid ch"] by blast
      qed
      then obtain n where n: "\<forall>m\<ge>n. \<forall>ch\<in>set ?xs. \<forall>acc. findChildren m comps (cid ch) acc \<noteq> None"
        using uniform_bound[of ?xs "\<lambda>ch m. \<forall>acc. findChildren m comps (cid ch) acc \<noteq> None"] by blast
      have "findChildren m comps i acc \<noteq> None" if mn: "m \<ge> Suc n" for m acc
      proof -
        obtain k where m: "m = Suc k" and k: "k \<ge> n" using mn by (cases m) auto
        show ?thesis unfolding m findChildren.simps
          by (rule fold_findChildren_total[where f = "\<lambda>c. findChildren k comps (cid c)"])
            (use n k in blast)
      qed
      then show "\<exists>n. \<forall>m\<ge>n. \<forall>acc. findChildren m comps i acc \<noteq> None" by blast
    qed
  qed
  then show ?thesis by blast
qed

lemma buildDOM_cases:
  assumes "buildDOM env n s = Returned s'"
  obtains (empty) "find (\<lambda>c. parentId c = None) (components s) = None"
      "s' = s\<lparr>rendered := [], generation := Suc (generation s)\<rparr>"
  | (tree) r e where "find (\<lambda>c. parentId c = None) (components s) = Some r"
      "buildElement env n (components s) (currentLang s) r = Some e"
      "s' = s\<lparr>rendered := [e], generation := Suc (generation s)\<rparr>"
  using assms by (auto simp: buildDOM_def Let_def split: option.splits)

lemma buildDOM_Raised:
  assumes "buildDOM env n s = Raised s'"
  shows "s' = s\<lparr>rendered := [], generation := Suc (generation s)\<rparr>"
  using assms by (auto simp: buildDOM_def Let_def split: option.splits)

lemma buildDOM_final [simp]:
  "components (final (buildDOM env n s)) = components s"
  "currentLang (final (buildDOM env n s)) = currentLang s"
  "outbox (final (buildDOM env n s)) = outbox s"
  "generation (final (buildDOM env n s)) = Suc (generation s)"
  by (simp_all add: buildDOM_def Let_def split: option.splits)

lemma buildDOM_fields:
  assumes "buildDOM env n s = Returned s'"
  shows "components s' = components s" "currentLang s' = currentLang s" "outbox s' = outbox s"
    "generation s' = Suc (generation s)"
  using buildDOM_final[of env n s] unfolding assms by simp_all

lemma buildDOM_mono:
  assumes "buildDOM env n s = Returned s'" "n \<le> m"
  shows "buildDOM env m s = Returned s'"
  using assms(1)
proof (cases rule: buildDOM_cases)
  case empty
  then show ?thesis by (simp add: buildDOM_def)
next
  case (tree r e)
  then show ?thesis using buildElement_mono[OF tree(2) assms(2)] by (simp add: buildDOM_def)
qed

lemma buildDOM_terminates:
  assumes "\<And>r. find (\<lambda>c. parentId c = None) (components s) = Some r \<Longrightarrow>
             cycleFree (components s) (cid r) \<and>
             (\<forall>x\<in>set (components s). (cid r, cid x) \<in> (parentRel (components s))\<^sup>* \<longrightarrow>
                namesAccepted env x)"
  shows "\<exists>n. \<forall>m\<ge>n. \<exists>s'. buildDOM env m s = Returned s'"
proof (cases "find (\<lambda>c. parentId c = None) (components s)")
  case None
  then show ?thesis by (simp add: buildDOM_def Let_def)
next
  case (Some r)
  have rin: "r \<in> set (components s)" using Some by (auto simp: find_Some_iff)
  have cf: "cycleFree (components s) (cid r)" using assms[OF Some] by simp
  have below: "\<forall>x\<in>set (components s). (cid r, cid x) \<in> (parentRel (components s))\<^sup>* \<longrightarrow>
                namesAccepted env x" using assms[OF Some] by simp
  have na: "namesAccepted env r" using below rin by blast
  obtain n where "\<forall>m\<ge>n. buildElement env m (components s) (currentLang s) r \<noteq> None"
    using buildElement_terminates[OF cf na below, where lang = "currentLang s"] by blast
  then have "\<forall>m\<ge>n. \<exists>s'. buildDOM env m s = Returned s'"
    using Some by (auto simp: buildDOM_def Let_def)
  then show ?thesis by blast
qed

lemma buildDOM_acyclic:
  assumes "acyclic (parentRel (components s))" "\<forall>x\<in>set (components s). namesAccepted env x"
  shows "\<exists>n. \<forall>m\<ge>n. \<exists>s'. buildDOM env m s = Returned s'"
  using acyclic_cycleFree[OF assms(1)] assms(2) by (intro buildDOM_terminates) auto

lemma parentRel_filter: "parentRel (filter P comps) \<subseteq> parentRel comps"
  by (auto simp: parentRel_def)

lemma findChildren_closure:
  "findChildren n comps i [i] = Some ids \<Longrightarrow> set ids = (parentRel comps)\<^sup>* `` {i}"
  by (auto simp: findChildren_set rtrancl_eq_or_trancl)

lemma deleteComponent_final:
  assumes "findChildren n (components s) i [i] = Some ids"
  shows "components (final (deleteComponent env n i s)) =
         filter (\<lambda>c. (i, cid c) \<notin> (parentRel (components s))\<^sup>*) (components s)"
  using assms findChildren_closure[OF assms] by (simp add: deleteComponent_def)

lemma deleteComponent_store:
  assumes "deleteComponent env n i s = Returned s'"
  shows "components s' = filter (\<lambda>c. (i, cid c) \<notin> (parentRel (components s))\<^sup>*) (components s)"
proof -
  obtain ids where ids: "findChildren n (components s) i [i] = Some ids"
    using assms by (auto simp: deleteComponent_def split: option.splits)
  show ?thesis using deleteComponent_final[OF ids, of env] unfolding assms by simp
qed

lemma deleteComponent_closure:
  assumes "acyclic (parentRel (components s))"
  shows "\<exists>n. \<forall>m\<ge>n. components (final (deleteComponent env m i s)) =
           filter (\<lambda>c. (i, cid c) \<notin> (parentRel (components s))\<^sup>*) (components s)"
proof -
  obtain n where n: "\<forall>m\<ge>n. \<forall>acc. findChildren m (components s) i acc \<noteq> None"
    using findChildren_terminates[OF acyclic_cycleFree[OF assms]] by blast
  have "components (final (deleteComponent env m i s)) =
        filter (\<lambda>c. (i, cid c) \<notin> (parentRel (components s))\<^sup>*) (components s)" if m: "m \<ge> n" for m
  proof -
    obtain ids where "findChildren m (components s) i [i] = Some ids" using n m by fastforce
    then show ?thesis by (rule deleteComponent_final)
  qed
  then show ?thesis by blast
qed

lemma deleteComponent_terminates:
  assumes "acyclic (parentRel (components s))"
    and "\<forall>x\<in>set (components s). (i, cid x) \<notin> (parentRel (components s))\<^sup>* \<longrightarrow> namesAccepted env x"
  shows "\<exists>n. \<forall>m\<ge>n. \<exists>s'. deleteComponent env m i s = Returned s'"
proof -
  let ?R = "parentRel (components s)"
  let ?s' = "s\<lparr>components := filter (\<lambda>c. (i, cid c) \<notin> ?R\<^sup>*) (components s)\<rparr>"
  obtain n1 where n1: "\<forall>m\<ge>n1. \<forall>acc. findChildren m (components s) i acc \<noteq> None"
    using findChildren_terminates[OF acyclic_cycleFree[OF assms(1)]] by blast
  have "acyclic (parentRel (components ?s'))"
    using assms(1) parentRel_filter by (auto intro: acyclic_subset)
  moreover have "\<forall>x\<in>set (components ?s'). namesAccepted env x" using assms(2) by simp
  ultimately obtain n2 where n2: "\<forall>m\<ge>n2. \<exists>s'. buildDOM env m ?s' = Returned s'"
    using buildDOM_acyclic by blast
  have "\<exists>s'. deleteComponent env m i s = Returned s'" if m: "m \<ge> max n1 n2" for m
  proof -
    obtain ids where ids: "findChildren m (components s) i [i] = Some ids"
      using n1 m by fastforce
    have "filter (\<lambda>c. cid c \<notin> set ids) (components s) = filter (\<lambda>c. (i, cid c) \<notin> ?R\<^sup>*) (components s)"
      using findChildren_closure[OF ids] by simp
    then show ?thesis using ids n2 m by (simp add: deleteComponent_def)
  qed
  then show ?thesis by blast
qed

lemma treeStore_acyclic: "acyclic (parentRel treeStore)"
  by (rule parentRel_acyclicI) (auto simp: treeStore_def plain_def)







lemma lowerName_dataId [simp]: "lowerName ''data-id'' = ''data-id''"
  by (simp add: lowerName_def lowerChar_def)

lemma lowerName_ezuiCms [simp]: "lowerName ''data-ezui-cms'' = ''data-ezui-cms''"
  by (simp add: lowerName_def lowerChar_def)


lemma map_of_fold_update_keeps:
  "map_of a key \<noteq> None \<Longrightarrow> map_of (fold (\<lambda>(k, v). AList.update (f k) v) kvs a) key \<noteq> None"
  by (induction kvs arbitrary: a) (auto simp: update_conv')

lemma attrs_stamped:
  "attrs (stamped env c) =
   fold (\<lambda>(k, v). AList.update (lowerName k) v) (attributes c)
     [(''data-id'', idString (cid c)),
      (''data-ezui-cms'', case ezuiCms c of None \<Rightarrow> ''undefined'' | Some s \<Rightarrow> s)]"
  by (simp add: stamped_def)

lemma dataId_stamped_some: "dataId (stamped env c) \<noteq> None"
  unfolding dataId_def attrs_stamped by (rule map_of_fold_update_keeps) simp


lemma find_root_in_store:
  "find (\<lambda>c. parentId c = None) comps = Some r \<Longrightarrow> r \<in> set comps \<and> parentId r = None"
  by (auto simp: find_Some_iff)

lemma valid_store_calls:
  assumes d: "distinct (map cid comps)"
    and r: "find (\<lambda>c. parentId c = None) comps = Some r"
    and ac: "acyclic (parentRel comps)"
    and reach: "\<forall>x\<in>set comps. (cid r, cid x) \<in> (parentRel comps)\<^sup>*"
    and calls: "buildCalls n comps r = Some rs"
  shows "mset rs = mset comps" "distinct (map cid rs)"
proof -
  have rin: "r \<in> set comps" using find_root_in_store[OF r] by simp
  have sub: "set rs \<subseteq> set comps" using buildCalls_subset[OF calls] rin by auto
  show dr: "distinct (map cid rs)"
    using buildCalls_distinct[OF d calls acyclic_cycleFree[OF ac]] .
  have inj: "inj_on cid (set comps)" using d by (simp add: distinct_map)
  have "x \<in> set rs" if x: "x \<in> set comps" for x
  proof -
    have "cid x \<in> cid ` set rs" using buildCalls_ids[OF calls] reach x by auto
    then obtain y where y: "y \<in> set rs" "cid y = cid x" by auto
    then have "y = x" using inj sub x by (auto dest: inj_onD)
    then show ?thesis using y by simp
  qed
  then have "set rs = set comps" using sub by auto
  moreover have "distinct rs" using dr by (simp add: distinct_map)
  moreover have "distinct comps" using d by (simp add: distinct_map)
  ultimately show "mset rs = mset comps" by (simp add: set_eq_iff_mset_eq_distinct)
qed

lemma valid_store_build:
  assumes d: "distinct (map cid comps)"
    and r: "find (\<lambda>c. parentId c = None) comps = Some r"
    and ac: "acyclic (parentRel comps)"
    and reach: "\<forall>x\<in>set comps. (cid r, cid x) \<in> (parentRel comps)\<^sup>*"
    and b: "buildElement env n comps lang r = Some e"
  shows "\<exists>rs. mset rs = mset comps \<and> distinct (map cid rs) \<and>
           map attrs (nodes e) = map (\<lambda>c. attrs (stamped env c)) rs"
    and "length (nodes e) = length comps"
proof -
  obtain rs where rs: "buildCalls n comps r = Some rs"
    "map attrs (nodes e) = map (\<lambda>r. attrs (stamped env r)) rs"
    using buildElement_buildCalls[OF b] by blast
  have m: "mset rs = mset comps" "distinct (map cid rs)"
    using valid_store_calls[OF d r ac reach rs(1)] by simp_all
  show "\<exists>rs. mset rs = mset comps \<and> distinct (map cid rs) \<and>
           map attrs (nodes e) = map (\<lambda>c. attrs (stamped env c)) rs"
    using m rs(2) by blast
  have "length (nodes e) = length rs" using rs(2) by (metis length_map)
  also have "\<dots> = length comps" using m(1) by (metis size_mset)
  finally show "length (nodes e) = length comps" .
qed

lemma dataId_attrs: "map dataId es = map (\<lambda>a. map_of a ''data-id'') (map attrs es)"
  by (simp add: dataId_def)









lemma built_nodes_dataId:
  assumes "buildElement env n comps lang c = Some e" "d \<in> set (nodes e)"
  shows "dataId d \<noteq> None"
proof -
  obtain rs where rs: "map attrs (nodes e) = map (\<lambda>r. attrs (stamped env r)) rs"
    using buildElement_buildCalls[OF assms(1)] by blast
  have "map dataId (nodes e) = map (\<lambda>c. dataId (stamped env c)) rs"
    unfolding dataId_attrs rs by (simp add: dataId_def)
  moreover have "dataId d \<in> set (map dataId (nodes e))" using assms(2) by simp
  ultimately show ?thesis using dataId_stamped_some by auto
qed


lemma live_fields [simp]:
  "components (updateContent i txt s) = components s"
  "currentLang (updateContent i txt s) = currentLang s"
  "outbox (updateContent i txt s) = outbox s"
  "generation (updateContent i txt s) = generation s"
  "components (updateStyle env i k v s) = components s"
  "currentLang (updateStyle env i k v s) = currentLang s"
  "outbox (updateStyle env i k v s) = outbox s"
  "generation (updateStyle env i k v s) = generation s"
  "components (clearHighlight s) = components s"
  "currentLang (clearHighlight s) = currentLang s"
  "outbox (clearHighlight s) = outbox s"
  "generation (clearHighlight s) = generation s"
  "components (highlightElement i s) = components s"
  "currentLang (highlightElement i s) = currentLang s"
  "outbox (highlightElement i s) = outbox s"
  "generation (highlightElement i s) = generation s"
  by (simp_all add: updateContent_def updateStyle_def clearHighlight_def highlightElement_def Let_def)

lemma deleteComponent_kept [simp]:
  "outbox (final (deleteComponent env n i s)) = outbox s"
  "currentLang (final (deleteComponent env n i s)) = currentLang s"
  by (simp_all add: deleteComponent_def split: option.splits)

lemma handleMessage_outbox [simp]:
  "outbox (final (handleMessage env n e s)) = outbox s"
  "currentLang (final (handleMessage env n e s)) = currentLang s"
  by (simp_all add: handleMessage_def reorderComponent_def addComponent_def
      split: command.splits option.splits)

lemma init_cases:
  assumes "init env n b (Some d) = Booted s"
  obtains s1 where
    "buildDOM env n \<lparr>components = records d,
        currentLang = (case language d of None \<Rightarrow> ''en'' | Some l \<Rightarrow> if l = [] then ''en'' else l),
        rendered = [], generation = 0, outbox = []\<rparr> = Returned s1"
    "s = (if b then enableEditMode s1 else s1)"
  using assms by (auto simp: init_def Let_def split: outcome.splits)

lemma init_outbox:
  assumes "init env n b (Some d) = Booted s"
  shows "outbox s = (if b then [(length (records d),
            case language d of None \<Rightarrow> ''en'' | Some l \<Rightarrow> if l = [] then ''en'' else l)] else [])"
  using assms
proof (cases rule: init_cases)
  case (1 s1)
  then show ?thesis using buildDOM_fields[OF 1(1)] by (simp add: enableEditMode_def)
qed

lemma reachable_outbox:
  "reachable env b d s \<Longrightarrow>
   outbox s = (if b then [(length (records d),
            case language d of None \<Rightarrow> ''en'' | Some l \<Rightarrow> if l = [] then ''en'' else l)] else [])"
proof (induction rule: reachable.induct)
  case (start env n isInIframe d s)
  then show ?case by (rule init_outbox)
next
  case (step env d s n e)
  then show ?case by simp
qed

lemma addressable_built:
  assumes "buildElement env n comps lang c = Some e" "rendered s = [e]"
  shows "addressable s = length (nodes e)"
proof -
  have "filter (\<lambda>d. dataId d \<noteq> None) (nodes e) = nodes e"
    using built_nodes_dataId[OF assms(1)] by (simp add: filter_id_conv)
  then show ?thesis using assms(2) by (simp add: addressable_def)
qed

lemma buildDOM_same_store:
  assumes "buildDOM env n s = Returned s'" "components t = components s" "currentLang t = currentLang s"
  shows "buildDOM env n t = Returned (t\<lparr>rendered := rendered s', generation := Suc (generation t)\<rparr>)"
  using assms(1)
proof (cases rule: buildDOM_cases)
  case empty
  then show ?thesis using assms(2,3) by (simp add: buildDOM_def)
next
  case (tree r e)
  then show ?thesis using assms(2,3) by (simp add: buildDOM_def)
qed

lemma buildDOM_again:
  assumes "buildDOM env n s = Returned s'"
  shows "buildDOM env n s' = Returned (s'\<lparr>generation := Suc (generation s')\<rparr>)"
proof -
  have "buildDOM env n s' = Returned (s'\<lparr>rendered := rendered s', generation := Suc (generation s')\<rparr>)"
    using assms buildDOM_fields[OF assms] by (intro buildDOM_same_store) simp_all
  then show ?thesis by simp
qed







lemma handle_rebuild:
  "handleMessage env n (fromEditor (Rebuild p)) s =
   buildDOM env n (s\<lparr>components := (case p of None \<Rightarrow> components s | Some cs \<Rightarrow> cs)\<rparr>)"
  by (cases p) (simp_all add: handleMessage_def fromEditor_def)





lemma handle_live:
  "handleMessage env n (fromEditor (UpdateContent i txt)) s = Returned (updateContent i txt s)"
  "handleMessage env n (fromEditor (UpdateStyle i k v)) s = Returned (updateStyle env i k v s)"
  "handleMessage env n (fromEditor (Highlight i)) s = Returned (highlightElement i s)"
  "handleMessage env n (fromEditor ClearHighlight) s = Returned (clearHighlight s)"
  by (simp_all add: handleMessage_def fromEditor_def)

lemma startedPage_reachable: "reachable exampleBrowser True textDescription startedPage"
proof -
  have "case init exampleBrowser 2 True (Some textDescription) of Booted s \<Rightarrow> True | _ \<Rightarrow> False"
    by code_simp
  then obtain s0 where s0: "init exampleBrowser 2 True (Some textDescription) = Booted s0"
    by (auto split: boot.splits)
  have "reachable exampleBrowser True textDescription s0" using s0 by (rule reachable.start)
  then have "reachable exampleBrowser True textDescription
      (final (handleMessage exampleBrowser 0 (fromEditor (UpdateStyle 2 ''color'' ''red'')) s0))"
    by (rule reachable.step)
  then show ?thesis using s0 by (simp add: startedPage_def handle_live)
qed





lemma returned_iff: "returned out \<longleftrightarrow> (\<exists>s. out = Returned s)"
  by (cases out) (simp_all add: returned_def)


lemma plain_accepted: "namesAccepted exampleBrowser (plain i p k)"
  by (simp add: namesAccepted_def plain_def tagOf_def exampleBrowser_def plainName_def)




lemma buildDOM_rendered:
  assumes "components t = components s \<and> currentLang t = currentLang s"
  shows "rendered (final (buildDOM env n t)) = rendered (final (buildDOM env n s))"
  using assms by (simp add: buildDOM_def Let_def split: option.splits)
subsection \<open>Sibling order (C1)\<close>



subsection \<open>Deleting a subtree (C2)\<close>

text \<open>
  C2. In a store without parent cycles, \<open>deleteComponent(id)\<close>, given enough stack,
  leaves as the store exactly the records it held before whose id is neither \<open>id\<close>
  nor the id of a transitive descendant of \<open>id\<close> under the parent relation, in their
  old order; this is so also when the rebuild that follows raises. Whenever
  \<open>deleteComponent\<close> returns, the store is this one. It does return when the browser
  accepts the names of the records that remain. In the tree root \<rightarrow> A \<rightarrow> B \<rightarrow> C,
  root \<rightarrow> D, deleting A leaves root and D.
\<close>

theorem delete_removes_subtree:
  assumes "acyclic (parentRel (components s))"
  shows "(\<exists>n0. \<forall>n\<ge>n0. components (final (deleteComponent env n i s)) =
            filter (\<lambda>c. (i, cid c) \<notin> (parentRel (components s))\<^sup>*) (components s)) \<and>
         (\<forall>n s'. deleteComponent env n i s = Returned s' \<longrightarrow>
            components s' =
              filter (\<lambda>c. (i, cid c) \<notin> (parentRel (components s))\<^sup>*) (components s)) \<and>
         ((\<forall>x\<in>set (components s). (i, cid x) \<notin> (parentRel (components s))\<^sup>* \<longrightarrow> namesAccepted env x) \<longrightarrow>
            (\<exists>n s'. deleteComponent env n i s = Returned s'))"
proof (intro conjI impI)
  show "\<exists>n0. \<forall>n\<ge>n0. components (final (deleteComponent env n i s)) =
            filter (\<lambda>c. (i, cid c) \<notin> (parentRel (components s))\<^sup>*) (components s)"
    using assms by (rule deleteComponent_closure)
  show "\<forall>n s'. deleteComponent env n i s = Returned s' \<longrightarrow>
            components s' =
              filter (\<lambda>c. (i, cid c) \<notin> (parentRel (components s))\<^sup>*) (components s)"
    using deleteComponent_store by blast
  show "\<exists>n s'. deleteComponent env n i s = Returned s'"
    if "\<forall>x\<in>set (components s). (i, cid x) \<notin> (parentRel (components s))\<^sup>* \<longrightarrow> namesAccepted env x"
    using deleteComponent_terminates[OF assms that] by (meson le_refl)
qed

theorem delete_removes_subtree_witness:
  "acyclic (parentRel (components (page treeStore))) \<and>
   list_all (namesAccepted exampleBrowser) (components (page treeStore)) \<and>
   (\<exists>n s'. deleteComponent exampleBrowser n 2 (page treeStore) = Returned s') \<and>
   returned (deleteComponent exampleBrowser 4 2 (page treeStore)) \<and>
   components (final (deleteComponent exampleBrowser 4 2 (page treeStore))) =
     [plain 1 None None, plain 5 (Some 1) None] \<and>
   filter (\<lambda>c. (2, cid c) \<notin> (parentRel (components (page treeStore)))\<^sup>*) (components (page treeStore)) =
     [plain 1 None None, plain 5 (Some 1) None]"
proof -
  have ac: "acyclic (parentRel (components (page treeStore)))"
    using treeStore_acyclic by (simp add: page_def)
  have na: "list_all (namesAccepted exampleBrowser) (components (page treeStore))"
    by (simp add: page_def treeStore_def plain_accepted)
  note t = delete_removes_subtree[OF ac, of exampleBrowser 2]
  have ex: "\<exists>n s'. deleteComponent exampleBrowser n 2 (page treeStore) = Returned s'"
    using t na by (simp add: list_all_iff)
  have ne: "returned (deleteComponent exampleBrowser 4 2 (page treeStore))" by code_simp
  have c: "components (final (deleteComponent exampleBrowser 4 2 (page treeStore))) =
      [plain 1 None None, plain 5 (Some 1) None]"
    by code_simp
  obtain s' where s': "deleteComponent exampleBrowser 4 2 (page treeStore) = Returned s'"
    using ne by (auto simp: returned_iff)
  have "components s' =
      filter (\<lambda>c. (2, cid c) \<notin> (parentRel (components (page treeStore)))\<^sup>*) (components (page treeStore))"
    using t s' by blast
  then show ?thesis using ac na ex ne c s' by simp
qed

subsection \<open>Rendering a valid store (C3)\<close>




subsection \<open>What each operation touches (C5)\<close>




subsection \<open>Operations that rebuild (C6)\<close>




subsection \<open>Rebuilding from the store's own records (C7)\<close>

text \<open>
  C7, amended. \<open>rebuild\<close> with the store's own record list as payload is a plain build
  from the store: the store stays the same, and the tree it leaves depends on the store
  and the language only, not on the tree before the call. So applying it twice gives
  the tree that applying it once gives, and applied to a state that a build has
  returned it returns that state unchanged but for the count of rebuilds: the identical
  tree. What was set on live elements since the last build is not kept.
\<close>

theorem rebuild_own_records:
  "handleMessage env n (fromEditor (Rebuild (Some (components s)))) s = buildDOM env n s \<and>
   components (final (buildDOM env n s)) = components s \<and>
   currentLang (final (buildDOM env n s)) = currentLang s \<and>
   (components t = components s \<and> currentLang t = currentLang s \<longrightarrow>
      rendered (final (handleMessage env n (fromEditor (Rebuild (Some (components t)))) t)) =
      rendered (final (handleMessage env n (fromEditor (Rebuild (Some (components s)))) s))) \<and>
   rendered (final (buildDOM env n (final (buildDOM env n s)))) = rendered (final (buildDOM env n s)) \<and>
   (\<forall>s'. buildDOM env n s = Returned s' \<longrightarrow>
      handleMessage env n (fromEditor (Rebuild (Some (components s')))) s' =
        Returned (s'\<lparr>generation := Suc (generation s')\<rparr>))"
proof (intro conjI allI impI)
  show own: "handleMessage env n (fromEditor (Rebuild (Some (components s)))) s = buildDOM env n s" for s
    by (simp add: handle_rebuild)
  show "components (final (buildDOM env n s)) = components s" by simp
  show "currentLang (final (buildDOM env n s)) = currentLang s" by simp
  show "rendered (final (handleMessage env n (fromEditor (Rebuild (Some (components t)))) t)) =
      rendered (final (handleMessage env n (fromEditor (Rebuild (Some (components s)))) s))"
    if "components t = components s \<and> currentLang t = currentLang s"
    unfolding own using that by (rule buildDOM_rendered)
  show "rendered (final (buildDOM env n (final (buildDOM env n s)))) = rendered (final (buildDOM env n s))"
    by (rule buildDOM_rendered) simp
  show "handleMessage env n (fromEditor (Rebuild (Some (components s')))) s' =
        Returned (s'\<lparr>generation := Suc (generation s')\<rparr>)" if "buildDOM env n s = Returned s'" for s'
    unfolding own using that by (rule buildDOM_again)
qed

theorem rebuild_own_records_witness:
  "components (page textStore) = components startedPage \<and>
   currentLang (page textStore) = currentLang startedPage \<and>
   rendered (page textStore) \<noteq> rendered startedPage \<and>
   rendered (final (handleMessage exampleBrowser 2 (fromEditor (Rebuild (Some (components (page textStore)))))
      (page textStore))) =
   rendered (final (handleMessage exampleBrowser 2 (fromEditor (Rebuild (Some (components startedPage))))
      startedPage)) \<and>
   (\<exists>s'. handleMessage exampleBrowser 2 (fromEditor (Rebuild (Some (components startedPage)))) startedPage =
        Returned s' \<and>
      components s' = components startedPage \<and>
      handleMessage exampleBrowser 2 (fromEditor (Rebuild (Some (components s')))) s' =
        Returned (s'\<lparr>generation := Suc (generation s')\<rparr>))"
proof -
  note t = rebuild_own_records[of exampleBrowser 2 startedPage "page textStore"]
  have c: "components (page textStore) = components startedPage" by code_simp
  have l: "currentLang (page textStore) = currentLang startedPage" by code_simp
  have d: "rendered (page textStore) \<noteq> rendered startedPage" by code_simp
  have 1: "rendered (final (handleMessage exampleBrowser 2 (fromEditor (Rebuild (Some (components (page textStore)))))
      (page textStore))) =
   rendered (final (handleMessage exampleBrowser 2 (fromEditor (Rebuild (Some (components startedPage))))
      startedPage))"
    using t c l by blast
  have "returned (handleMessage exampleBrowser 2 (fromEditor (Rebuild (Some (components startedPage)))) startedPage)"
    by code_simp
  then obtain s' where s': "handleMessage exampleBrowser 2 (fromEditor (Rebuild (Some (components startedPage)))) startedPage = Returned s'"
    by (auto simp: returned_iff)
  have b: "buildDOM exampleBrowser 2 startedPage = Returned s'" using t s' by simp
  have 2: "components s' = components startedPage" using t b by (metis outcome.sel(1))
  have 3: "handleMessage exampleBrowser 2 (fromEditor (Rebuild (Some (components s')))) s' =
        Returned (s'\<lparr>generation := Suc (generation s')\<rparr>)"
    using t b by blast
  show ?thesis using c l d 1 s' 2 3 by blast
qed

text \<open>
  The claim as stated fails in a state the page reaches by \<open>init\<close> and one
  \<open>update-style\<close> message: \<open>rebuild\<close> with the store's own records returns, the store
  is the same, and the tree has changed, the element 2 having lost the colour it had
  before the call.
\<close>

theorem rebuild_changes_tree_counterexample:
  "reachable exampleBrowser True textDescription startedPage \<and>
   returned (handleMessage exampleBrowser 2 (fromEditor (Rebuild (Some (components startedPage)))) startedPage) \<and>
   components (final (handleMessage exampleBrowser 2 (fromEditor (Rebuild (Some (components startedPage))))
      startedPage)) = components startedPage \<and>
   rendered startedPage =
     [Element ''div'' [(''data-id'', ''1''), (''data-ezui-cms'', ''undefined'')] [] None False
       [Element ''div'' [(''data-id'', ''2''), (''data-ezui-cms'', ''undefined'')]
          [(''color'', ''red'')] (Some ''Hello'') False []]] \<and>
   rendered (final (handleMessage exampleBrowser 2 (fromEditor (Rebuild (Some (components startedPage))))
      startedPage)) =
     [Element ''div'' [(''data-id'', ''1''), (''data-ezui-cms'', ''undefined'')] [] None False
       [Element ''div'' [(''data-id'', ''2''), (''data-ezui-cms'', ''undefined'')]
          [] (Some ''Hello'') False []]]"
proof -
  have 1: "returned (handleMessage exampleBrowser 2 (fromEditor (Rebuild (Some (components startedPage)))) startedPage)"
    by code_simp
  have 2: "components (final (handleMessage exampleBrowser 2 (fromEditor (Rebuild (Some (components startedPage))))
      startedPage)) = components startedPage" by code_simp
  have 3: "rendered startedPage =
     [Element ''div'' [(''data-id'', ''1''), (''data-ezui-cms'', ''undefined'')] [] None False
       [Element ''div'' [(''data-id'', ''2''), (''data-ezui-cms'', ''undefined'')]
          [(''color'', ''red'')] (Some ''Hello'') False []]]" by code_simp
  have 4: "rendered (final (handleMessage exampleBrowser 2 (fromEditor (Rebuild (Some (components startedPage))))
      startedPage)) =
     [Element ''div'' [(''data-id'', ''1''), (''data-ezui-cms'', ''undefined'')] [] None False
       [Element ''div'' [(''data-id'', ''2''), (''data-ezui-cms'', ''undefined'')]
          [] (Some ''Hello'') False []]]" by code_simp
  show ?thesis using startedPage_reachable 1 2 3 4 by blast
qed

subsection \<open>The ready message (C9)\<close>

text \<open>
  What \<open>enableEditMode\<close> posts. Inside an iframe, once the description is loaded and
  \<open>buildDOM\<close> has returned, the page has posted exactly one message \<open>ezui-ready\<close>,
  and handling messages never posts another; outside an iframe it posts none. The
  \<open>elementsCount\<close> of the message is the number of records of the description
  (\<open>componentsData.components.length\<close>), with the language in use. For a store that is
  a tree (unique ids, a root, no cycle, every record reachable from the root) this
  number is the number of elements with a \<open>data-id\<close> in the page at that moment.
\<close>

lemma ready_posted_once:
  "(reachable env True d s \<longrightarrow>
      outbox s = [(length (records d),
                   case language d of None \<Rightarrow> ''en'' | Some l \<Rightarrow> if l = [] then ''en'' else l)]) \<and>
   (reachable env False d s \<longrightarrow> outbox s = []) \<and>
   (init env n True (Some d) = Booted s \<and> distinct (map cid (records d)) \<and>
    find (\<lambda>c. parentId c = None) (records d) = Some r \<and> acyclic (parentRel (records d)) \<and>
    (\<forall>x\<in>set (records d). (cid r, cid x) \<in> (parentRel (records d))\<^sup>*) \<longrightarrow>
      map fst (outbox s) = [addressable s])"
proof (intro conjI impI)
  show "outbox s = [(length (records d),
                   case language d of None \<Rightarrow> ''en'' | Some l \<Rightarrow> if l = [] then ''en'' else l)]"
    if "reachable env True d s" using reachable_outbox[OF that] by simp
  show "outbox s = []" if "reachable env False d s" using reachable_outbox[OF that] by simp
next
  assume a: "init env n True (Some d) = Booted s \<and> distinct (map cid (records d)) \<and>
    find (\<lambda>c. parentId c = None) (records d) = Some r \<and> acyclic (parentRel (records d)) \<and>
    (\<forall>x\<in>set (records d). (cid r, cid x) \<in> (parentRel (records d))\<^sup>*)"
  then have i: "init env n True (Some d) = Booted s" and d: "distinct (map cid (records d))"
    and f: "find (\<lambda>c. parentId c = None) (records d) = Some r"
    and ac: "acyclic (parentRel (records d))"
    and re: "\<forall>x\<in>set (records d). (cid r, cid x) \<in> (parentRel (records d))\<^sup>*" by simp_all
  let ?lang = "case language d of None \<Rightarrow> ''en'' | Some l \<Rightarrow> if l = [] then ''en'' else l"
  from i obtain s1 where s1:
    "buildDOM env n \<lparr>components = records d, currentLang = ?lang,
        rendered = [], generation = 0, outbox = []\<rparr> = Returned s1"
    "s = (if True then enableEditMode s1 else s1)"
    by (rule init_cases)
  from s1(1) obtain e where e: "buildElement env n (records d) ?lang r = Some e" "rendered s1 = [e]"
    using f by (cases rule: buildDOM_cases) auto
  have "length (nodes e) = length (records d)" using valid_store_build(2)[OF d f ac re e(1)] .
  moreover have "rendered s = [e]" using s1(2) e(2) by (simp add: enableEditMode_def)
  then have "addressable s = length (nodes e)" using addressable_built[OF e(1)] by simp
  ultimately show "map fst (outbox s) = [addressable s]" using init_outbox[OF i] by simp
qed

text \<open>
  C9. The \<open>elementsCount\<close> of the ready message is not the number of addressable
  elements of the page (\<open>addressable\<close>, the number the first script of the file sends
  under this name). A description with a root and a record whose parent is missing,
  loaded inside an iframe: \<open>init\<close> builds the page, the page holds one element and it
  has a \<open>data-id\<close>, and the one message posted says 2, the number of records. A
  description without a root: nothing is rendered, and the message says 1.
\<close>

theorem ready_count_divergence:
  "init exampleBrowser 2 True (Some orphanDescription) = Booted orphanPage \<and>
   outbox orphanPage = [(2, ''en'')] \<and>
   map dataId (concat (map nodes (rendered orphanPage))) = [Some ''1''] \<and>
   addressable orphanPage = 1 \<and>
   length (records orphanDescription) = 2 \<and>
   init exampleBrowser 2 True (Some \<lparr>language = None, records = rootlessStore\<rparr>) = Booted rootlessPage \<and>
   outbox rootlessPage = [(1, ''en'')] \<and>
   rendered rootlessPage = [] \<and>
   addressable rootlessPage = 0"
proof -
  have 1: "init exampleBrowser 2 True (Some orphanDescription) = Booted orphanPage" by code_simp
  have 2: "map dataId (concat (map nodes (rendered orphanPage))) = [Some ''1'']" by code_simp
  have 3: "addressable orphanPage = 1" by code_simp
  have 4: "length (records orphanDescription) = 2" by code_simp
  have 5: "init exampleBrowser 2 True (Some \<lparr>language = None, records = rootlessStore\<rparr>) = Booted rootlessPage"
    by code_simp
  have 6: "addressable rootlessPage = 0" by code_simp
  show ?thesis using 1 2 3 4 5 6 by (simp add: orphanPage_def rootlessPage_def)
qed

subsection \<open>More than one root (C10)\<close>




subsection \<open>Text and children (C4)\<close>

text \<open>
  C4. Whenever \<open>buildElement\<close> returns an element for a record: if the record has a
  child in the store, the element has no text, whatever the record's \<open>content\<close>; if the
  element has a text, the record has no child and the text is \<open>content[currentLang]\<close>;
  and in the whole tree built, no element with children has a text.
\<close>

theorem text_only_on_leaves:
  assumes "buildElement env n comps lang c = Some e"
  shows "(children comps c \<noteq> [] \<longrightarrow> textContent e = None) \<and>
         (\<forall>t. textContent e = Some t \<longrightarrow> children comps c = [] \<and> map_of (content c) lang = Some t) \<and>
         (\<forall>d \<in> set (nodes e). childNodes d \<noteq> [] \<longrightarrow> textContent d = None)"
proof (intro conjI)
  show "children comps c \<noteq> [] \<longrightarrow> textContent e = None"
    using buildElement_inner(1)[OF assms] by blast
  show "\<forall>t. textContent e = Some t \<longrightarrow> children comps c = [] \<and> map_of (content c) lang = Some t"
  proof (intro allI impI)
    fix t assume t: "textContent e = Some t"
    then have ch: "children comps c = []" using buildElement_inner(1)[OF assms] by auto
    then have "contentText lang c = Some t" using buildElement_leaf(2)[OF assms] t by simp
    then have "map_of (content c) lang = Some t"
      by (auto simp: contentText_def split: option.splits if_splits)
    then show "children comps c = [] \<and> map_of (content c) lang = Some t" using ch by simp
  qed
  show "\<forall>d \<in> set (nodes e). childNodes d \<noteq> [] \<longrightarrow> textContent d = None"
    using nodes_text_inner[OF assms] by blast
qed

lemma textStore_build:
  "buildElement exampleBrowser 2 textStore ''en'' (textStore ! 0) =
   Some (Element ''div'' [(''data-id'', ''1''), (''data-ezui-cms'', ''undefined'')] [] None False
     [Element ''div'' [(''data-id'', ''2''), (''data-ezui-cms'', ''undefined'')] [] (Some ''Hello'') False []])"
  by code_simp

theorem text_only_on_leaves_witness:
  "buildElement exampleBrowser 2 textStore ''en'' (textStore ! 0) \<noteq> None \<and>
   children textStore (textStore ! 0) \<noteq> [] \<and>
   map_of (content (textStore ! 0)) ''en'' = Some ''Title'' \<and>
   textContent (the (buildElement exampleBrowser 2 textStore ''en'' (textStore ! 0))) = None \<and>
   map textContent (nodes (the (buildElement exampleBrowser 2 textStore ''en'' (textStore ! 0)))) = [None, Some ''Hello''] \<and>
   buildElement exampleBrowser 1 textStore ''en'' (textStore ! 1) \<noteq> None \<and>
   textContent (the (buildElement exampleBrowser 1 textStore ''en'' (textStore ! 1))) = Some ''Hello'' \<and>
   children textStore (textStore ! 1) = [] \<and>
   map_of (content (textStore ! 1)) ''en'' = Some ''Hello''"
proof -
  have ch: "children textStore (textStore ! 0) \<noteq> []" by code_simp
  have "textContent (the (buildElement exampleBrowser 2 textStore ''en'' (textStore ! 0))) = None"
    using text_only_on_leaves[OF textStore_build] ch by (simp add: textStore_build)
  moreover have "map_of (content (textStore ! 0)) ''en'' = Some ''Title''" by code_simp
  moreover have l: "buildElement exampleBrowser 1 textStore ''en'' (textStore ! 1) \<noteq> None" by code_simp
  moreover have t: "textContent (the (buildElement exampleBrowser 1 textStore ''en'' (textStore ! 1))) = Some ''Hello''"
    by code_simp
  moreover have "children textStore (textStore ! 1) = [] \<and>
      map_of (content (textStore ! 1)) ''en'' = Some ''Hello''"
  proof -
    obtain e where e: "buildElement exampleBrowser 1 textStore ''en'' (textStore ! 1) = Some e" using l by auto
    then have "textContent e = Some ''Hello''" using t by simp
    then show ?thesis using text_only_on_leaves[OF e] by blast
  qed
  ultimately show ?thesis using ch by (simp add: textStore_build)
qed

subsection \<open>Messages from other sources (C8)\<close>

text \<open>
  C8. For a message whose \<open>source\<close> is not \<open>visual-editor\<close> (or that has none)
  \<open>handleMessage\<close> returns and leaves the state as it is: the store, the rendered tree,
  and everything else.
\<close>

theorem foreign_source_ignored:
  "source e \<noteq> Some ''visual-editor'' \<Longrightarrow> handleMessage env n e s = Returned s"
  by (simp add: handleMessage_def)


theorem foreign_source_ignored_witness:
  "source \<lparr>source = Some ''someone-else'', command = DeleteComponent 1\<rparr> \<noteq> Some ''visual-editor'' \<and>
   handleMessage exampleBrowser 5 \<lparr>source = Some ''someone-else'', command = DeleteComponent 1\<rparr>
     \<lparr>components = textStore, currentLang = ''en'', rendered = [], generation = 0, outbox = []\<rparr> =
   Returned \<lparr>components = textStore, currentLang = ''en'', rendered = [], generation = 0, outbox = []\<rparr>"
  using foreign_source_ignored[of "\<lparr>source = Some ''someone-else'', command = DeleteComponent 1\<rparr>"
      exampleBrowser 5
      "\<lparr>components = textStore, currentLang = ''en'', rendered = [], generation = 0, outbox = []\<rparr>"]
  by simp

end
